theory Spec2Isabelle
  imports Complex_Main
begin

section \<open>Strings and character classes\<close>

text \<open>
  A JavaScript string is a sequence of UTF-16 code units. The model uses \<^typ>\<open>string\<close>, whose
  characters are the code units 0 to 255; the character classes below are the restrictions
  of the ECMAScript classes to that range.

  A JavaScript number is a double. A line number or a count is an \<^typ>\<open>int\<close> in the model:
  the doubles are exact on the integers up to \<open>2^53\<close>, and from there on \<open>parseInt\<close> rounds
  and \<open>++\<close> no longer steps by one. The statements about the numbers of a hunk carry the
  bound \<open>safe_numbers\<close>, under which the code computes the numbers of the model.
\<close>

definition is_space :: "char \<Rightarrow> bool" where
  \<comment> \<open>the regular expression class \<open>\s\<close>, also the characters removed by \<open>trim()\<close>\<close>
  "is_space c = (let n = (of_char c :: nat) in (9 \<le> n \<and> n \<le> 13) \<or> n = 32 \<or> n = 160)"

definition is_digit :: "char \<Rightarrow> bool" where
  \<comment> \<open>the class \<open>\d\<close>\<close>
  "is_digit c = (let n = (of_char c :: nat) in 48 \<le> n \<and> n \<le> 57)"

definition is_word_char :: "char \<Rightarrow> bool" where
  \<comment> \<open>the class \<open>\w\<close>\<close>
  "is_word_char c = (let n = (of_char c :: nat) in
     (48 \<le> n \<and> n \<le> 57) \<or> (65 \<le> n \<and> n \<le> 90) \<or> n = 95 \<or> (97 \<le> n \<and> n \<le> 122))"

definition is_line_terminator :: "char \<Rightarrow> bool" where
  \<comment> \<open>the characters that \<open>.\<close> does not match\<close>
  "is_line_terminator c = (let n = (of_char c :: nat) in n = 10 \<or> n = 13)"

definition toLowerCase_char :: "char \<Rightarrow> char" where
  \<comment> \<open>the lower-case letter is 32 above the upper-case one: bit 5 is set\<close>
  "toLowerCase_char c = (let n = (of_char c :: nat) in
     if (65 \<le> n \<and> n \<le> 90) \<or> (192 \<le> n \<and> n \<le> 222 \<and> n \<noteq> 215)
     then (case c of Char b0 b1 b2 b3 b4 b5 b6 b7 \<Rightarrow> Char b0 b1 b2 b3 b4 True b6 b7)
     else c)"

definition toLowerCase :: "string \<Rightarrow> string" where
  "toLowerCase s = map toLowerCase_char s"

definition trim :: "string \<Rightarrow> string" where
  "trim s = rev (dropWhile is_space (rev (dropWhile is_space s)))"

definition startsWith :: "string \<Rightarrow> string \<Rightarrow> bool" where
  "startsWith s p = (take (length p) s = p)"

fun includes_str :: "string \<Rightarrow> string \<Rightarrow> bool" where
  "includes_str [] t = (t = [])"
| "includes_str (c # cs) t = (startsWith (c # cs) t \<or> includes_str cs t)"

fun split_on :: "char \<Rightarrow> string \<Rightarrow> string list" where
  \<comment> \<open>\<open>s.split(c)\<close> for a one-character separator\<close>
  "split_on sep [] = [[]]"
| "split_on sep (c # cs) =
     (if c = sep then [] # split_on sep cs
      else (case split_on sep cs of [] \<Rightarrow> [[c]] | w # ws \<Rightarrow> (c # w) # ws))"

definition parseInt :: "string \<Rightarrow> int" where
  \<comment> \<open>\<open>parseInt\<close> on a string of decimal digits: the number that the digits denote, which
      is the result of the code while it is below \<open>2^53\<close>\<close>
  "parseInt ds = foldl (\<lambda>n c. 10 * n + (int (of_char c) - 48)) 0 ds"

section \<open>The diff patch model (utils/enhanced-diff-parser.ts)\<close>

datatype LineType = Added | Removed | Context

record DiffLine =
  type :: LineType
  content :: string
  old_line :: "int option"
  new_line :: "int option"
  diff_line_in_patch :: nat

record DiffHunk =
  oldStart :: int
  oldCount :: int
  newStart :: int
  newCount :: int
  lines :: "DiffLine list"
  headerLine :: string

record FileDiff =
  oldPath :: string
  newPath :: string
  isNewFile :: bool
  isDeletedFile :: bool
  hunks :: "DiffHunk list"

subsection \<open>The two header patterns\<close>

fun split_last :: "string \<Rightarrow> string \<Rightarrow> (string \<times> string) option" where
  \<comment> \<open>the text before and after the last occurrence of a separator\<close>
  "split_last sep [] = None"
| "split_last sep (c # cs) =
     (case split_last sep cs of
        Some (a, b) \<Rightarrow> Some (c # a, b)
      | None \<Rightarrow> if startsWith (c # cs) sep then Some ([], drop (length sep) (c # cs)) else None)"

fun match_file_header :: "string \<Rightarrow> (string \<times> string) option" where
  \<comment> \<open>\<open>line.match(/diff --git a\/(.*) b\/(.*)/)\<close>: the leftmost match; the first group is
      greedy, so it ends at the last \<open>" b/"\<close> before a line terminator\<close>
  "match_file_header [] = None"
| "match_file_header (c # cs) =
     (if startsWith (c # cs) ''diff --git a/''
      then (case split_last '' b/'' (takeWhile (\<lambda>x. \<not> is_line_terminator x) (drop 13 (c # cs))) of
              Some r \<Rightarrow> Some r
            | None \<Rightarrow> match_file_header cs)
      else match_file_header cs)"

definition expect :: "string \<Rightarrow> string \<Rightarrow> string option" where
  "expect p s = (if startsWith s p then Some (drop (length p) s) else None)"

definition opt_count :: "string \<Rightarrow> int option \<times> string" where
  \<comment> \<open>the optional group \<open>(?:,(\d+))?\<close>\<close>
  "opt_count s =
     (case s of
        [] \<Rightarrow> (None, s)
      | c # r \<Rightarrow>
          if c = CHR '','' \<and> takeWhile is_digit r \<noteq> []
          then (Some (parseInt (takeWhile is_digit r)), dropWhile is_digit r)
          else (None, s))"

definition match_hunk_at :: "string \<Rightarrow> (int \<times> int option \<times> int \<times> int option) option" where
  \<comment> \<open>\<open>@@ -(\d+)(?:,(\d+))? \+(\d+)(?:,(\d+))? @@\<close> at the start of the text\<close>
  "match_hunk_at s =
     (case expect ''@@ -'' s of
        None \<Rightarrow> None
      | Some s1 \<Rightarrow>
          if takeWhile is_digit s1 = [] then None
          else (case opt_count (dropWhile is_digit s1) of (c1, s2) \<Rightarrow>
            (case expect '' +'' s2 of
               None \<Rightarrow> None
             | Some s3 \<Rightarrow>
                 if takeWhile is_digit s3 = [] then None
                 else (case opt_count (dropWhile is_digit s3) of (c2, s4) \<Rightarrow>
                   (case expect '' @@'' s4 of
                      None \<Rightarrow> None
                    | Some s5 \<Rightarrow>
                        Some (parseInt (takeWhile is_digit s1), c1,
                              parseInt (takeWhile is_digit s3), c2))))))"

fun match_hunk_header :: "string \<Rightarrow> (int \<times> int option \<times> int \<times> int option) option" where
  \<comment> \<open>\<open>line.match(...)\<close> is not anchored: the leftmost position that matches\<close>
  "match_hunk_header [] = None"
| "match_hunk_header (c # cs) =
     (case match_hunk_at (c # cs) of Some r \<Rightarrow> Some r | None \<Rightarrow> match_hunk_header cs)"

subsection \<open>The parser state\<close>

text \<open>
  The parser mutates the current hunk and the current file after it has stored references to
  them (a hunk in the \<open>hunks\<close> array of a file, a file in the result map), and it can store
  the same hunk twice. The model therefore keeps hunks and files in a store, addressed by
  their index, and the arrays and the map hold addresses.
\<close>

record FileObj =
  f_oldPath :: string
  f_newPath :: string
  f_isNewFile :: bool
  f_isDeletedFile :: bool
  f_hunks :: "nat list"

record pstate =
  hunk_store :: "DiffHunk list"
  file_store :: "FileObj list"
  files :: "string \<Rightarrow> nat option"
  currentFile :: "nat option"
  currentHunk :: "nat option"
  oldLineNumber :: int
  newLineNumber :: int

definition init_pstate :: pstate where
  "init_pstate = \<lparr>hunk_store = [], file_store = [], files = (\<lambda>k. None), currentFile = None,
     currentHunk = None, oldLineNumber = 0, newLineNumber = 0\<rparr>"

definition push_hunk :: "nat \<Rightarrow> nat \<Rightarrow> pstate \<Rightarrow> pstate" where
  \<comment> \<open>\<open>file.hunks.push(hunk)\<close>\<close>
  "push_hunk f h s =
     s\<lparr>file_store := (file_store s)[f := (file_store s ! f)\<lparr>f_hunks := f_hunks (file_store s ! f) @ [h]\<rparr>]\<rparr>"

definition push_line :: "nat \<Rightarrow> DiffLine \<Rightarrow> pstate \<Rightarrow> pstate" where
  \<comment> \<open>\<open>hunk.lines.push(line)\<close>\<close>
  "push_line h l s =
     s\<lparr>hunk_store := (hunk_store s)[h := (hunk_store s ! h)\<lparr>lines := lines (hunk_store s ! h) @ [l]\<rparr>]\<rparr>"

definition save_file :: "pstate \<Rightarrow> pstate" where
  \<comment> \<open>\<open>if (currentFile && currentFile.hunks.length > 0) files.set(currentFile.newPath, currentFile)\<close>\<close>
  "save_file s =
     (case currentFile s of
        None \<Rightarrow> s
      | Some f \<Rightarrow>
          if f_hunks (file_store s ! f) \<noteq> []
          then s\<lparr>files := (files s)(f_newPath (file_store s ! f) \<mapsto> f)\<rparr>
          else s)"

definition parse_line :: "nat \<Rightarrow> string \<Rightarrow> pstate \<Rightarrow> pstate" where
  \<comment> \<open>one iteration of the loop, for \<open>lines[i]\<close>\<close>
  "parse_line i line s =
     (if startsWith line ''diff --git '' then
        (let s1 = (case (currentHunk s, currentFile s) of
                     (Some h, Some f) \<Rightarrow> (push_hunk f h s)\<lparr>currentHunk := None\<rparr>
                   | _ \<Rightarrow> s);
             s2 = save_file s1
         in case match_file_header line of
              None \<Rightarrow> s2
            | Some (a, b) \<Rightarrow>
                s2\<lparr>file_store := file_store s2 @
                      [\<lparr>f_oldPath = a, f_newPath = b, f_isNewFile = False,
                        f_isDeletedFile = False, f_hunks = []\<rparr>],
                   currentFile := Some (length (file_store s2))\<rparr>)
      else if startsWith line ''new file mode'' then
        (case currentFile s of
           None \<Rightarrow> s
         | Some f \<Rightarrow> s\<lparr>file_store := (file_store s)[f := (file_store s ! f)\<lparr>f_isNewFile := True\<rparr>]\<rparr>)
      else if startsWith line ''deleted file mode'' then
        (case currentFile s of
           None \<Rightarrow> s
         | Some f \<Rightarrow> s\<lparr>file_store := (file_store s)[f := (file_store s ! f)\<lparr>f_isDeletedFile := True\<rparr>]\<rparr>)
      else if startsWith line ''@@'' then
        (let s1 = (case currentHunk s of
                     None \<Rightarrow> s
                   | Some h \<Rightarrow> (case currentFile s of None \<Rightarrow> s | Some f \<Rightarrow> push_hunk f h s))
         in case match_hunk_header line of
              None \<Rightarrow> s1
            | Some (os, oc, ns, nc) \<Rightarrow>
                s1\<lparr>hunk_store := hunk_store s1 @
                      [\<lparr>oldStart = os, oldCount = (case oc of None \<Rightarrow> 1 | Some n \<Rightarrow> n),
                        newStart = ns, newCount = (case nc of None \<Rightarrow> 1 | Some n \<Rightarrow> n),
                        lines = [], headerLine = line\<rparr>],
                   currentHunk := Some (length (hunk_store s1)),
                   oldLineNumber := os, newLineNumber := ns\<rparr>)
      else
        (case currentHunk s of
           None \<Rightarrow> s
         | Some h \<Rightarrow>
             if startsWith line ''+'' then
               (push_line h \<lparr>type = Added, content = drop 1 line, old_line = None,
                   new_line = Some (newLineNumber s), diff_line_in_patch = i + 1\<rparr> s)
                 \<lparr>newLineNumber := newLineNumber s + 1\<rparr>
             else if startsWith line ''-'' then
               (push_line h \<lparr>type = Removed, content = drop 1 line, old_line = Some (oldLineNumber s),
                   new_line = None, diff_line_in_patch = i + 1\<rparr> s)
                 \<lparr>oldLineNumber := oldLineNumber s + 1\<rparr>
             else if startsWith line '' '' then
               (push_line h \<lparr>type = Context, content = drop 1 line, old_line = Some (oldLineNumber s),
                   new_line = Some (newLineNumber s), diff_line_in_patch = i + 1\<rparr> s)
                 \<lparr>oldLineNumber := oldLineNumber s + 1, newLineNumber := newLineNumber s + 1\<rparr>
             else s))"

fun parse_lines :: "nat \<Rightarrow> string list \<Rightarrow> pstate \<Rightarrow> pstate" where
  \<comment> \<open>the loop \<open>for (let i = 0; i < lines.length; i++)\<close>, from index \<open>i\<close> on\<close>
  "parse_lines i [] s = s"
| "parse_lines i (l # ls) s = parse_lines (Suc i) ls (parse_line i l s)"

definition finish :: "pstate \<Rightarrow> pstate" where
  \<comment> \<open>the last hunk and the last file, after the loop\<close>
  "finish s =
     save_file (case currentHunk s of
                  None \<Rightarrow> s
                | Some h \<Rightarrow> (case currentFile s of None \<Rightarrow> s | Some f \<Rightarrow> push_hunk f h s))"

definition deref_file :: "pstate \<Rightarrow> nat \<Rightarrow> FileDiff" where
  \<comment> \<open>the file object at an address, with its hunks as they are at the end\<close>
  "deref_file s f =
     \<lparr>oldPath = f_oldPath (file_store s ! f), newPath = f_newPath (file_store s ! f),
      isNewFile = f_isNewFile (file_store s ! f), isDeletedFile = f_isDeletedFile (file_store s ! f),
      hunks = map (\<lambda>h. hunk_store s ! h) (f_hunks (file_store s ! f))\<rparr>"

definition parseDiffPatch :: "string \<Rightarrow> (string \<Rightarrow> FileDiff option)" where
  "parseDiffPatch diffContent =
     (let s = finish (parse_lines 0 (split_on (CHR 0x0A) diffContent) init_pstate)
      in (\<lambda>path. map_option (deref_file s) (files s path)))"

section \<open>The line position resolver (utils/enhanced-diff-parser.ts)\<close>

subsection \<open>Normalisation\<close>

function collapse_ws :: "string \<Rightarrow> string" where
  \<comment> \<open>\<open>.replace(/\s+/g, ' ')\<close>\<close>
  "collapse_ws [] = []"
| "collapse_ws (c # cs) =
     (if is_space c then CHR '' '' # collapse_ws (dropWhile is_space cs) else c # collapse_ws cs)"
  by pat_completeness auto
termination
  by (relation "measure length") (auto simp: length_dropWhile_le less_Suc_eq_le)

definition is_punct :: "char \<Rightarrow> bool" where
  \<comment> \<open>the class \<open>[;,\(\)\{\}=]\<close>\<close>
  "is_punct c = (c \<in> set '';,(){}='')"

function strip_punct_spaces :: "string \<Rightarrow> string" where
  \<comment> \<open>\<open>.replace(/\s*([;,\(\)\{\}=])\s*/g, '$1')\<close>: at each position, a run of white space
      followed by one of the characters matches, together with the white space after it\<close>
  "strip_punct_spaces [] = []"
| "strip_punct_spaces (c # cs) =
     (case dropWhile is_space (c # cs) of
        [] \<Rightarrow> c # strip_punct_spaces cs
      | p # r \<Rightarrow>
          if is_punct p then p # strip_punct_spaces (dropWhile is_space r)
          else c # strip_punct_spaces cs)"
  by pat_completeness auto
termination
proof (relation "measure length", goal_cases)
  case 1
  show ?case by simp
next
  case (2 c cs)
  show ?case by simp
next
  case (3 c cs p r)
  have "length (dropWhile is_space r) \<le> length r"
    by (rule length_dropWhile_le)
  moreover have "length (p # r) \<le> length (c # cs)"
    using 3(1) length_dropWhile_le [of is_space "c # cs"] by simp
  ultimately show ?case by simp
next
  case (4 c cs p r)
  show ?case by simp
qed

definition normalizeCode :: "string \<Rightarrow> string" where
  "normalizeCode code = strip_punct_spaces (collapse_ws (trim code))"

subsection \<open>Matching\<close>

text \<open>
  The scores are quotients of string lengths, compared with each other and with the
  constants 0.4 and 0.6. The model computes them as rational numbers. For strings of fewer
  than \<open>2^26\<close> characters the comparisons of the rounded double-precision quotients have the
  same outcome as those of the exact quotients.
\<close>

datatype Confidence = Exact | Fuzzy | Fallback

record LinePosition =
  pos_old_line :: "int option"
  pos_new_line :: "int option"
  confidence :: Confidence

type_synonym best = "LinePosition option \<times> rat"

definition hint_or_zero :: "int option \<Rightarrow> int" where
  \<comment> \<open>\<open>aiProvidedNewLine || 0\<close>\<close>
  "hint_or_zero h = (case h of None \<Rightarrow> 0 | Some n \<Rightarrow> n)"

definition fallback_at :: "int \<Rightarrow> LinePosition" where
  "fallback_at n = \<lparr>pos_old_line = None, pos_new_line = Some n, confidence = Fallback\<rparr>"

definition fuzzy_at :: "DiffLine \<Rightarrow> LinePosition" where
  "fuzzy_at line = \<lparr>pos_old_line = old_line line, pos_new_line = new_line line, confidence = Fuzzy\<rparr>"

definition exact_at :: "DiffLine \<Rightarrow> LinePosition" where
  "exact_at line = \<lparr>pos_old_line = old_line line, pos_new_line = new_line line, confidence = Exact\<rparr>"

definition genericPatterns :: "string list" where
  "genericPatterns = [''}'', ''{'', ''};'', [], ''return;'', ''break;'', ''continue;'']"

definition method1 :: "string \<Rightarrow> string \<Rightarrow> DiffLine \<Rightarrow> best \<Rightarrow> best" where
  \<comment> \<open>Method 1: the target is a substring of the line\<close>
  "method1 targetCode lineCode line b =
     (if length targetCode \<ge> 15 \<and> includes_str lineCode targetCode
      then (let score = (of_nat (length targetCode) / of_nat (length lineCode) :: rat)
            in if score > snd b then (Some (fuzzy_at line), score) else b)
      else b)"

definition method2 :: "string \<Rightarrow> string \<Rightarrow> DiffLine \<Rightarrow> best \<Rightarrow> best" where
  \<comment> \<open>Method 2: the line is a substring of the target\<close>
  "method2 targetCode lineCode line b =
     (if length lineCode \<ge> 15 \<and> includes_str targetCode lineCode
      then (let score = (of_nat (length lineCode) / of_nat (length targetCode) :: rat)
            in if score > snd b then (Some (fuzzy_at line), score) else b)
      else b)"

definition matchingChars :: "string \<Rightarrow> string \<Rightarrow> nat" where
  \<comment> \<open>the characters equal at the same index, up to the shorter length\<close>
  "matchingChars targetCode lineCode = length (filter (\<lambda>(a, b). a = b) (zip targetCode lineCode))"

definition method3 :: "string \<Rightarrow> string \<Rightarrow> DiffLine \<Rightarrow> best \<Rightarrow> best" where
  \<comment> \<open>Method 3: the similarity ratio\<close>
  "method3 targetCode lineCode line b =
     (if length targetCode \<ge> 20 \<and> length lineCode \<ge> 20
      then (let similarity = (of_nat (matchingChars targetCode lineCode) /
                              of_nat (max (length targetCode) (length lineCode)) :: rat)
            in if similarity > 3 / 5 \<and> similarity > snd b then (Some (fuzzy_at line), similarity) else b)
      else b)"

definition scan_line :: "string \<Rightarrow> DiffLine \<Rightarrow> best \<Rightarrow> LinePosition + best" where
  \<comment> \<open>the body of the inner loop; \<open>Inl\<close> is the \<open>return\<close> of an exact match\<close>
  "scan_line targetCode line b =
     (if type line = Removed then Inr b
      else (let lineCode = normalizeCode (content line)
            in if length lineCode < 3 then Inr b
               else if lineCode = targetCode then Inl (exact_at line)
               else Inr (method3 targetCode lineCode line
                          (method2 targetCode lineCode line
                            (method1 targetCode lineCode line b)))))"

fun scan_lines :: "string \<Rightarrow> DiffLine list \<Rightarrow> best \<Rightarrow> LinePosition + best" where
  "scan_lines targetCode [] b = Inr b"
| "scan_lines targetCode (line # ls) b =
     (case scan_line targetCode line b of
        Inl r \<Rightarrow> Inl r
      | Inr b' \<Rightarrow> scan_lines targetCode ls b')"

fun scan_hunks :: "string \<Rightarrow> DiffHunk list \<Rightarrow> best \<Rightarrow> LinePosition + best" where
  "scan_hunks targetCode [] b = Inr b"
| "scan_hunks targetCode (hunk # hs) b =
     (case scan_lines targetCode (lines hunk) b of
        Inl r \<Rightarrow> Inl r
      | Inr b' \<Rightarrow> scan_hunks targetCode hs b')"

definition findCorrectLineNumbers ::
  "string \<Rightarrow> string \<Rightarrow> int option \<Rightarrow> (string \<Rightarrow> FileDiff option) \<Rightarrow> LinePosition" where
  "findCorrectLineNumbers filePath codeContent aiProvidedNewLine fileDiffs =
     (case fileDiffs filePath of
        None \<Rightarrow> fallback_at (hint_or_zero aiProvidedNewLine)
      | Some fileDiff \<Rightarrow>
          if codeContent = [] \<or> length (trim codeContent) = 0
          then fallback_at (hint_or_zero aiProvidedNewLine)
          else (let targetCode = normalizeCode codeContent
                in if length targetCode < 5 then fallback_at (hint_or_zero aiProvidedNewLine)
                   else if targetCode \<in> set genericPatterns
                   then fallback_at (hint_or_zero aiProvidedNewLine)
                   else (case scan_hunks targetCode (hunks fileDiff) (None, 0) of
                           Inl r \<Rightarrow> r
                         | Inr (bestMatch, bestMatchScore) \<Rightarrow>
                             (case bestMatch of
                                None \<Rightarrow> fallback_at 0
                              | Some m \<Rightarrow> if bestMatchScore > 2 / 5 then m else fallback_at 0))))"

section \<open>The duplicate suppressor (services/discussion-manager.ts)\<close>

record ExistingDiscussionComment =
  comment_id :: string
  c_file :: "string option"
  c_line :: "int option"
  c_body :: string
  c_author :: string
  c_createdAt :: string
  c_isSystemNote :: bool

definition stored_line :: "int option \<Rightarrow> int option" where
  \<comment> \<open>\<open>line: position?.new_line || null\<close> in \<open>fetchAndStoreExistingDiscussions\<close>, the only
      producer of the comments: a line 0 is stored as \<open>null\<close>\<close>
  "stored_line position_new_line =
     (case position_new_line of None \<Rightarrow> None | Some n \<Rightarrow> if n = 0 then None else Some n)"

function split_ws :: "string \<Rightarrow> string list" where
  \<comment> \<open>\<open>.split(/\s+/)\<close>\<close>
  "split_ws [] = [[]]"
| "split_ws (c # cs) =
     (if is_space c then [] # split_ws (dropWhile is_space cs)
      else (case split_ws cs of [] \<Rightarrow> [[c]] | w # ws \<Rightarrow> (c # w) # ws))"
  by pat_completeness auto
termination
  by (relation "measure length") (auto simp: length_dropWhile_le less_Suc_eq_le)

definition normalize :: "string \<Rightarrow> string list" where
  \<comment> \<open>lower case, every character outside \<open>\w\<close> and \<open>\s\<close> replaced by a space, split at white
      space, words longer than 3 characters kept\<close>
  "normalize text =
     filter (\<lambda>w. length w > 3)
       (split_ws (map (\<lambda>c. if \<not> is_word_char c \<and> \<not> is_space c then CHR '' '' else c)
                    (toLowerCase text)))"

definition calculateSimilarity :: "string \<Rightarrow> string \<Rightarrow> rat" where
  \<comment> \<open>a \<open>Set\<close> is a list without duplicates; its \<open>size\<close> is the length\<close>
  "calculateSimilarity text1 text2 =
     (let words1 = remdups (normalize text1);
          words2 = remdups (normalize text2)
      in if length words1 = 0 \<and> length words2 = 0 then 1
         else if length words1 = 0 \<or> length words2 = 0 then 0
         else (let intersection = remdups (filter (\<lambda>w. w \<in> set words2) words1);
                   union = remdups (words1 @ words2)
               in of_nat (length intersection) / of_nat (length union)))"

fun similar_in :: "int \<Rightarrow> string \<Rightarrow> int \<Rightarrow> ExistingDiscussionComment list \<Rightarrow> bool" where
  \<comment> \<open>the loop over the comments of the file\<close>
  "similar_in lineNumber commentBody lineToleranceRange [] = False"
| "similar_in lineNumber commentBody lineToleranceRange (existingComment # cs) =
     (case c_line existingComment of
        None \<Rightarrow> similar_in lineNumber commentBody lineToleranceRange cs
      | Some l \<Rightarrow>
          if l = 0 then similar_in lineNumber commentBody lineToleranceRange cs
          else if \<bar>l - lineNumber\<bar> > lineToleranceRange
          then similar_in lineNumber commentBody lineToleranceRange cs
          else if calculateSimilarity commentBody (c_body existingComment) > 3 / 5 then True
          else similar_in lineNumber commentBody lineToleranceRange cs)"

definition isSimilarCommentExists ::
  "string \<Rightarrow> int \<Rightarrow> string \<Rightarrow> ExistingDiscussionComment list \<Rightarrow> int \<Rightarrow> bool" where
  "isSimilarCommentExists filePath lineNumber commentBody existingComments lineToleranceRange =
     (let fileComments = filter (\<lambda>c. c_file c = Some filePath) existingComments
      in if length fileComments = 0 then False
         else similar_in lineNumber commentBody lineToleranceRange fileComments)"

section \<open>The built-in JSON.parse\<close>

text \<open>
  \<open>JSON.parse\<close> belongs to the language, not to the repository. The model follows the JSON
  grammar (ECMA-404): a tokenizer and a pushdown recogniser that builds the parse tree.
  Numbers and strings are kept as their lexemes (a string without its quotes, escapes not
  decoded); an object is the list of its members in source order.
\<close>

datatype json =
  JNull | JBool bool | JNumber string | JString string | JArray "json list"
  | JObject "(string \<times> json) list"

datatype token =
  TLBrace | TRBrace | TLBracket | TRBracket | TColon | TComma
  | TString string | TNumber string | TTrue | TFalse | TNull

definition is_json_ws :: "char \<Rightarrow> bool" where
  "is_json_ws c = (let n = (of_char c :: nat) in n = 32 \<or> n = 9 \<or> n = 10 \<or> n = 13)"

definition is_hex :: "char \<Rightarrow> bool" where
  "is_hex c = (let n = (of_char c :: nat) in
     (48 \<le> n \<and> n \<le> 57) \<or> (65 \<le> n \<and> n \<le> 70) \<or> (97 \<le> n \<and> n \<le> 102))"

function scan_string :: "string \<Rightarrow> (string \<times> string) option" where
  \<comment> \<open>the text after an opening quote: the lexeme up to the closing quote, and the rest\<close>
  "scan_string [] = None"
| "scan_string (c # cs) =
     (if c = CHR 0x22 then Some ([], cs)
      else if c = CHR 0x5C then
        (case cs of
           [] \<Rightarrow> None
         | e # r \<Rightarrow>
             if e \<in> set [CHR 0x22, CHR 0x5C, CHR ''/'', CHR ''b'', CHR ''f'', CHR ''n'', CHR ''r'', CHR ''t'']
             then (case scan_string r of None \<Rightarrow> None | Some (v, rest) \<Rightarrow> Some (c # e # v, rest))
             else if e = CHR ''u'' \<and> 4 \<le> length r \<and> list_all is_hex (take 4 r)
             then (case scan_string (drop 4 r) of
                     None \<Rightarrow> None
                   | Some (v, rest) \<Rightarrow> Some (c # e # take 4 r @ v, rest))
             else None)
      else if (of_char c :: nat) < 32 then None
      else (case scan_string cs of None \<Rightarrow> None | Some (v, rest) \<Rightarrow> Some (c # v, rest)))"
  by pat_completeness auto
termination
  by (relation "measure length") auto

definition scan_digits :: "string \<Rightarrow> (string \<times> string) option" where
  \<comment> \<open>one or more digits\<close>
  "scan_digits s = (if takeWhile is_digit s = [] then None
                    else Some (takeWhile is_digit s, dropWhile is_digit s))"

definition opt_sign :: "string \<Rightarrow> string \<times> string" where
  \<comment> \<open>\<open>-?\<close>\<close>
  "opt_sign s = (case s of [] \<Rightarrow> ([], s) | c # r \<Rightarrow> if c = CHR ''-'' then ([c], r) else ([], s))"

definition int_part :: "string \<Rightarrow> (string \<times> string) option" where
  \<comment> \<open>\<open>0 | [1-9][0-9]*\<close>\<close>
  "int_part s = (case s of [] \<Rightarrow> None | c # r \<Rightarrow> if c = CHR ''0'' then Some ([c], r) else scan_digits s)"

definition frac_part :: "string \<Rightarrow> (string \<times> string) option" where
  \<comment> \<open>\<open>(. [0-9]+)?\<close>\<close>
  "frac_part s =
     (case s of
        [] \<Rightarrow> Some ([], s)
      | c # r \<Rightarrow>
          if c = CHR ''.''
          then (case scan_digits r of None \<Rightarrow> None | Some (d, r') \<Rightarrow> Some (c # d, r'))
          else Some ([], s))"

definition exp_part :: "string \<Rightarrow> (string \<times> string) option" where
  \<comment> \<open>\<open>([eE] [+-]? [0-9]+)?\<close>\<close>
  "exp_part s =
     (case s of
        [] \<Rightarrow> Some ([], s)
      | c # r \<Rightarrow>
          if c = CHR ''e'' \<or> c = CHR ''E''
          then (case r of
                  [] \<Rightarrow> None
                | x # r' \<Rightarrow>
                    if x = CHR ''+'' \<or> x = CHR ''-''
                    then (case scan_digits r' of None \<Rightarrow> None | Some (d, r2) \<Rightarrow> Some (c # x # d, r2))
                    else (case scan_digits r of None \<Rightarrow> None | Some (d, r2) \<Rightarrow> Some (c # d, r2)))
          else Some ([], s))"

definition scan_number :: "string \<Rightarrow> (string \<times> string) option" where
  \<comment> \<open>\<open>-? (0 | [1-9][0-9]*) (. [0-9]+)? ([eE] [+-]? [0-9]+)?\<close>: the lexeme and the rest\<close>
  "scan_number s =
     (case opt_sign s of (sg, s1) \<Rightarrow>
        (case int_part s1 of
           None \<Rightarrow> None
         | Some (ip, s2) \<Rightarrow>
             (case frac_part s2 of
                None \<Rightarrow> None
              | Some (fp, s3) \<Rightarrow>
                  (case exp_part s3 of
                     None \<Rightarrow> None
                   | Some (ep, s4) \<Rightarrow> Some (sg @ ip @ fp @ ep, s4)))))"

lemma scan_string_length: "scan_string s = Some (v, rest) \<Longrightarrow> length rest \<le> length s"
proof (induction s arbitrary: v rest rule: length_induct)
  case (1 s)
  note IH = "1.IH" [rule_format]
  show ?case
  proof (cases s)
    case Nil
    then show ?thesis using "1.prems" by simp
  next
    case (Cons c cs)
    consider (quote) "c = CHR 0x22"
      | (esc) "c \<noteq> CHR 0x22" "c = CHR 0x5C"
      | (other) "c \<noteq> CHR 0x22" "c \<noteq> CHR 0x5C"
      by blast
    then show ?thesis
    proof cases
      case quote
      then show ?thesis using "1.prems" Cons by simp
    next
      case esc
      show ?thesis
      proof (cases cs)
        case Nil
        then show ?thesis using "1.prems" Cons esc by simp
      next
        case cs: (Cons e r)
        consider (simple) "e \<in> set [CHR 0x22, CHR 0x5C, CHR ''/'', CHR ''b'', CHR ''f'', CHR ''n'', CHR ''r'', CHR ''t'']"
          | (uni) "e \<notin> set [CHR 0x22, CHR 0x5C, CHR ''/'', CHR ''b'', CHR ''f'', CHR ''n'', CHR ''r'', CHR ''t'']"
                  "e = CHR ''u'' \<and> 4 \<le> length r \<and> list_all is_hex (take 4 r)"
          | (bad) "e \<notin> set [CHR 0x22, CHR 0x5C, CHR ''/'', CHR ''b'', CHR ''f'', CHR ''n'', CHR ''r'', CHR ''t'']"
                  "\<not> (e = CHR ''u'' \<and> 4 \<le> length r \<and> list_all is_hex (take 4 r))"
          by blast
        then show ?thesis
        proof cases
          case simple
          then obtain v' where "scan_string r = Some (v', rest)"
            using "1.prems" Cons esc cs by (auto split: option.splits)
          then have "length rest \<le> length r"
            using IH [of r v' rest] Cons cs by simp
          then show ?thesis using Cons cs by simp
        next
          case uni
          then obtain v' where "scan_string (drop 4 r) = Some (v', rest)"
            using "1.prems" Cons esc cs by (auto split: option.splits)
          then have "length rest \<le> length (drop 4 r)"
            using IH [of "drop 4 r" v' rest] Cons cs by simp
          then show ?thesis using Cons cs by simp
        next
          case bad
          then show ?thesis using "1.prems" Cons esc cs by auto
        qed
      qed
    next
      case other
      then obtain v' where "scan_string cs = Some (v', rest)"
        using "1.prems" Cons by (auto split: option.splits if_splits)
      then have "length rest \<le> length cs"
        using IH [of cs v' rest] Cons by simp
      then show ?thesis using Cons by simp
    qed
  qed
qed

lemma scan_digits_length: "scan_digits s = Some (v, rest) \<Longrightarrow> length rest < length s"
proof -
  assume a: "scan_digits s = Some (v, rest)"
  then have v: "takeWhile is_digit s \<noteq> []" and r: "rest = dropWhile is_digit s"
    by (auto simp: scan_digits_def split: if_splits)
  have "length (dropWhile is_digit s) < length (takeWhile is_digit s) + length (dropWhile is_digit s)"
    using v by simp
  also have "\<dots> = length (takeWhile is_digit s @ dropWhile is_digit s)"
    by (simp only: length_append)
  also have "\<dots> = length s"
    by (simp only: takeWhile_dropWhile_id)
  finally show ?thesis
    using r by simp
qed

lemma opt_sign_length: "opt_sign s = (sg, s1) \<Longrightarrow> length s1 \<le> length s"
  by (auto simp: opt_sign_def split: list.splits if_splits)

lemma int_part_length: "int_part s = Some (v, rest) \<Longrightarrow> length rest < length s"
  by (auto simp: int_part_def split: list.splits if_splits dest: scan_digits_length)

lemma frac_part_length: "frac_part s = Some (v, rest) \<Longrightarrow> length rest \<le> length s"
  by (auto simp: frac_part_def split: list.splits if_splits option.splits
           dest!: scan_digits_length)

lemma exp_part_length: "exp_part s = Some (v, rest) \<Longrightarrow> length rest \<le> length s"
  by (auto simp: exp_part_def split: list.splits if_splits option.splits
           dest!: scan_digits_length)

lemma scan_number_length:
  assumes "scan_number s = Some (v, rest)"
  shows "length rest < length s"
proof -
  obtain sg s1 where s1: "opt_sign s = (sg, s1)"
    by (cases "opt_sign s")
  obtain ip s2 where s2: "int_part s1 = Some (ip, s2)"
    using assms s1 by (auto simp: scan_number_def split: option.splits)
  obtain fp s3 where s3: "frac_part s2 = Some (fp, s3)"
    using assms s1 s2 by (auto simp: scan_number_def split: option.splits)
  obtain ep where s4: "exp_part s3 = Some (ep, rest)"
    using assms s1 s2 s3 by (auto simp: scan_number_def split: option.splits)
  show ?thesis
    using opt_sign_length [OF s1] int_part_length [OF s2] frac_part_length [OF s3]
      exp_part_length [OF s4]
    by simp
qed

function tokenize :: "string \<Rightarrow> token list option" where
  "tokenize [] = Some []"
| "tokenize (c # cs) =
     (if is_json_ws c then tokenize cs
      else if c = CHR ''{'' then map_option (Cons TLBrace) (tokenize cs)
      else if c = CHR ''}'' then map_option (Cons TRBrace) (tokenize cs)
      else if c = CHR ''['' then map_option (Cons TLBracket) (tokenize cs)
      else if c = CHR '']'' then map_option (Cons TRBracket) (tokenize cs)
      else if c = CHR '':'' then map_option (Cons TColon) (tokenize cs)
      else if c = CHR '','' then map_option (Cons TComma) (tokenize cs)
      else if c = CHR 0x22 then
        (case scan_string cs of
           None \<Rightarrow> None
         | Some (v, rest) \<Rightarrow> map_option (Cons (TString v)) (tokenize rest))
      else if c = CHR ''-'' \<or> is_digit c then
        (case scan_number (c # cs) of
           None \<Rightarrow> None
         | Some (v, rest) \<Rightarrow> map_option (Cons (TNumber v)) (tokenize rest))
      else if startsWith (c # cs) ''true'' then map_option (Cons TTrue) (tokenize (drop 3 cs))
      else if startsWith (c # cs) ''false'' then map_option (Cons TFalse) (tokenize (drop 4 cs))
      else if startsWith (c # cs) ''null'' then map_option (Cons TNull) (tokenize (drop 3 cs))
      else None)"
  by pat_completeness auto
termination
proof (relation "measure length", goal_cases)
  case (9 c cs x2 x y)
  then show ?case
    using scan_string_length [of cs x y] by simp
next
  case (10 c cs x2 x y)
  then show ?case
    using scan_number_length [of "c # cs" x y] by simp
qed simp_all

datatype frame =
  FArray "json list"
  | FObject "(string \<times> json) list"
  | FMember "(string \<times> json) list" string

datatype mode = MValue | MValueOrClose | MKeyOrClose | MKey | MColon | MAfter | MDone json

definition reduce :: "json \<Rightarrow> frame list \<Rightarrow> (mode \<times> frame list) option" where
  \<comment> \<open>a complete value goes into the enclosing array or member, or is the document\<close>
  "reduce v st =
     (case st of
        [] \<Rightarrow> Some (MDone v, [])
      | FArray es # r \<Rightarrow> Some (MAfter, FArray (es @ [v]) # r)
      | FMember ms k # r \<Rightarrow> Some (MAfter, FObject (ms @ [(k, v)]) # r)
      | FObject ms # r \<Rightarrow> None)"

definition close_array :: "frame list \<Rightarrow> (mode \<times> frame list) option" where
  "close_array st = (case st of FArray es # r \<Rightarrow> reduce (JArray es) r | _ \<Rightarrow> None)"

definition close_object :: "frame list \<Rightarrow> (mode \<times> frame list) option" where
  "close_object st = (case st of FObject ms # r \<Rightarrow> reduce (JObject ms) r | _ \<Rightarrow> None)"

definition begin_value :: "token \<Rightarrow> frame list \<Rightarrow> (mode \<times> frame list) option" where
  \<comment> \<open>a token that starts a value\<close>
  "begin_value t st =
     (case t of
        TString v \<Rightarrow> reduce (JString v) st
      | TNumber v \<Rightarrow> reduce (JNumber v) st
      | TTrue \<Rightarrow> reduce (JBool True) st
      | TFalse \<Rightarrow> reduce (JBool False) st
      | TNull \<Rightarrow> reduce JNull st
      | TLBracket \<Rightarrow> Some (MValueOrClose, FArray [] # st)
      | TLBrace \<Rightarrow> Some (MKeyOrClose, FObject [] # st)
      | _ \<Rightarrow> None)"

definition begin_member :: "token \<Rightarrow> frame list \<Rightarrow> (mode \<times> frame list) option" where
  "begin_member t st =
     (case (t, st) of
        (TString k, FObject ms # r) \<Rightarrow> Some (MColon, FMember ms k # r)
      | _ \<Rightarrow> None)"

definition json_step :: "token \<Rightarrow> mode \<times> frame list \<Rightarrow> (mode \<times> frame list) option" where
  "json_step t ms =
     (case ms of (m, st) \<Rightarrow>
        (case m of
           MValue \<Rightarrow> begin_value t st
         | MValueOrClose \<Rightarrow> if t = TRBracket then close_array st else begin_value t st
         | MKeyOrClose \<Rightarrow> if t = TRBrace then close_object st else begin_member t st
         | MKey \<Rightarrow> begin_member t st
         | MColon \<Rightarrow> if t = TColon then Some (MValue, st) else None
         | MAfter \<Rightarrow>
             if t = TComma
             then (case st of
                     FArray es # r \<Rightarrow> Some (MValue, st)
                   | FObject ms # r \<Rightarrow> Some (MKey, st)
                   | _ \<Rightarrow> None)
             else if t = TRBracket then close_array st
             else if t = TRBrace then close_object st
             else None
         | MDone v \<Rightarrow> None))"

fun json_run :: "token list \<Rightarrow> mode \<times> frame list \<Rightarrow> json option" where
  "json_run [] ms = (case ms of (MDone v, []) \<Rightarrow> Some v | _ \<Rightarrow> None)"
| "json_run (t # ts) ms = (case json_step t ms of None \<Rightarrow> None | Some ms' \<Rightarrow> json_run ts ms')"

definition JSON_parse :: "string \<Rightarrow> json option" where
  \<comment> \<open>\<open>None\<close> is the \<open>SyntaxError\<close> that \<open>JSON.parse\<close> throws\<close>
  "JSON_parse text = (case tokenize text of None \<Rightarrow> None | Some ts \<Rightarrow> json_run ts (MValue, []))"

section \<open>The response parser of the three-phase review (review/three-phase-reviewer.ts)\<close>

datatype js_error = SyntaxError | TypeError | AgentError

function remove_fence :: "string \<Rightarrow> string \<Rightarrow> string" where
  \<comment> \<open>\<open>.replace(/MARKER\s*/g, '')\<close> for a marker without special characters: every
      occurrence of the marker goes, with the white space after it\<close>
  "remove_fence marker [] = []"
| "remove_fence [] (c # cs) = c # cs"
| "remove_fence (m # ms) (c # cs) =
     (if startsWith (c # cs) (m # ms)
      then remove_fence (m # ms) (dropWhile is_space (drop (length ms) cs))
      else c # remove_fence (m # ms) cs)"
  by pat_completeness auto
termination
proof (relation "measure (\<lambda>(marker, s). length s)", goal_cases)
  case 1
  show ?case by simp
next
  case (2 m ms c cs)
  have "length (dropWhile is_space (drop (length ms) cs)) \<le> length (drop (length ms) cs)"
    by (rule length_dropWhile_le)
  then show ?case by simp
next
  case (3 m ms c cs)
  show ?case by simp
qed

definition from_first_brace :: "string \<Rightarrow> string" where
  \<comment> \<open>\<open>firstBrace = s.indexOf('{'); if (firstBrace > 0) s = s.substring(firstBrace)\<close>\<close>
  "from_first_brace s = (if CHR ''{'' \<in> set s then dropWhile (\<lambda>c. c \<noteq> CHR ''{'') s else s)"

definition to_last_brace :: "string \<Rightarrow> string" where
  \<comment> \<open>\<open>lastBrace = s.lastIndexOf('}');
      if (lastBrace !== -1 && lastBrace < s.length - 1) s = s.substring(0, lastBrace + 1)\<close>\<close>
  "to_last_brace s =
     (if CHR ''}'' \<in> set s then rev (dropWhile (\<lambda>c. c \<noteq> CHR ''}'') (rev s)) else s)"

definition clean_response :: "string \<Rightarrow> string" where
  \<comment> \<open>the text that \<open>parseAIResponse\<close> hands to \<open>JSON.parse\<close>\<close>
  "clean_response output =
     to_last_brace (from_first_brace (remove_fence ''```'' (remove_fence ''```json'' (trim output))))"

definition parseAIResponse :: "string \<Rightarrow> js_error + json" where
  \<comment> \<open>\<open>Inl\<close> is the error that the function logs and throws again\<close>
  "parseAIResponse output =
     (case JSON_parse (clean_response output) of
        None \<Rightarrow> Inl SyntaxError
      | Some v \<Rightarrow> Inr v)"

section \<open>The JSON stage of the single-phase review (review/cursor-agent.ts)\<close>

text \<open>
  The block of \<open>runCursorAgentReview\<close> that turns the standard output of the agent into
  \<open>reviewData\<close>: the wrapper format, the code fences, the text around the braces, the repair of
  a truncated document, \<open>JSON.parse\<close>, and the second attempt after escaping quotes. The
  recogniser of \<open>JSON.parse\<close> keeps the lexemes of strings; where the block needs the value
  of a string (the \<open>result\<close> field of the wrapper and the names of its members), the function
  \<open>unescape\<close> from lexemes to values is a parameter.
\<close>

definition endsWith :: "string \<Rightarrow> string \<Rightarrow> bool" where
  "endsWith s p = startsWith (rev s) (rev p)"

fun first_some :: "('a \<Rightarrow> 'b option) \<Rightarrow> 'a list \<Rightarrow> 'b option" where
  \<comment> \<open>the first alternative that succeeds\<close>
  "first_some f [] = None"
| "first_some f (x # xs) = (case f x of Some y \<Rightarrow> Some y | None \<Rightarrow> first_some f xs)"

subsection \<open>The wrapper format\<close>

definition wrapper_prefix :: string where
  \<comment> \<open>\<open>{"type":"result"\<close>\<close>
  "wrapper_prefix =
     ''{'' @ [CHR 0x22] @ ''type'' @ [CHR 0x22] @ '':'' @ [CHR 0x22] @ ''result'' @ [CHR 0x22]"

definition number_is_zero :: "string \<Rightarrow> bool" where
  \<comment> \<open>the double denoted by a JSON number is zero: no digit of the mantissa is other than 0,
      or the value is at most \<open>2^-1075\<close> and rounds to zero\<close>
  "number_is_zero lexeme =
     (case opt_sign lexeme of (sg, s1) \<Rightarrow>
        (case int_part s1 of
           None \<Rightarrow> False
         | Some (ip, s2) \<Rightarrow>
             (case frac_part s2 of
                None \<Rightarrow> False
              | Some (fp, s3) \<Rightarrow>
                  (let m = parseInt (ip @ drop 1 fp);
                       ex = (case drop 1 s3 of
                               [] \<Rightarrow> 0
                             | x # r \<Rightarrow> if x = CHR ''-'' then - parseInt r
                                        else if x = CHR ''+'' then parseInt r
                                        else parseInt (x # r));
                       e = ex - int (length (drop 1 fp))
                   in m = 0 \<or> (e < 0 \<and> m * 2 ^ 1075 \<le> 10 ^ nat (- e))))))"

definition truthy :: "json \<Rightarrow> bool" where
  \<comment> \<open>the value counts as true in a condition\<close>
  "truthy v =
     (case v of
        JNull \<Rightarrow> False
      | JBool b \<Rightarrow> b
      | JNumber n \<Rightarrow> \<not> number_is_zero n
      | JString s \<Rightarrow> s \<noteq> []
      | JArray es \<Rightarrow> True
      | JObject ms \<Rightarrow> True)"

definition get_property :: "(string \<Rightarrow> string) \<Rightarrow> string \<Rightarrow> (string \<times> json) list \<Rightarrow> json option" where
  \<comment> \<open>\<open>obj.name\<close> for an object built by \<open>JSON.parse\<close>: the last member with that name;
      \<open>None\<close> is \<open>undefined\<close>\<close>
  "get_property unescape name ms =
     (case filter (\<lambda>(k, v). unescape k = name) ms of
        [] \<Rightarrow> None
      | x # xs \<Rightarrow> Some (snd (last (x # xs))))"

definition unwrap :: "(string \<Rightarrow> string) \<Rightarrow> string \<Rightarrow> js_error + string" where
  \<comment> \<open>\<open>if (cleanOutput.startsWith('{"type":"result"')) ...\<close>. A \<open>result\<close> that counts as true
      and is not a string becomes \<open>cleanOutput\<close>, and the next method call on it
      (\<open>includes\<close>, \<open>match\<close> or \<open>startsWith\<close>) throws a \<open>TypeError\<close>\<close>
  "unwrap unescape cleanOutput =
     (if startsWith cleanOutput wrapper_prefix then
        (case JSON_parse cleanOutput of
           None \<Rightarrow> Inr cleanOutput
         | Some wrapperObj \<Rightarrow>
             (case wrapperObj of
                JObject ms \<Rightarrow>
                  (case get_property unescape ''result'' ms of
                     None \<Rightarrow> Inr cleanOutput
                   | Some r \<Rightarrow>
                       if truthy r
                       then (case r of JString lexeme \<Rightarrow> Inr (unescape lexeme) | _ \<Rightarrow> Inl TypeError)
                       else Inr cleanOutput)
              | _ \<Rightarrow> Inr cleanOutput))
      else Inr cleanOutput)"

subsection \<open>The code fences\<close>

fun before_first :: "string \<Rightarrow> string \<Rightarrow> string option" where
  \<comment> \<open>the text before the first occurrence of a separator\<close>
  "before_first sep [] = (if sep = [] then Some [] else None)"
| "before_first sep (c # cs) =
     (if startsWith (c # cs) sep then Some [] else map_option (Cons c) (before_first sep cs))"

definition json_block_at :: "string \<Rightarrow> string option" where
  \<comment> \<open>the pattern \<open>\s*\n([\s\S]*?)\n```\<close> at the start of the text: the group. \<open>\s*\<close> is
      greedy, so the newline is the last one of the leading white space for which the rest
      matches; the group is lazy, so it ends at the first newline followed by a fence\<close>
  "json_block_at rest =
     (let w = takeWhile is_space rest
      in first_some
           (\<lambda>j. if w ! j = CHR 0x0A then before_first (CHR 0x0A # ''```'') (drop (Suc j) rest)
                 else None)
           (rev [0..<length w]))"

fun match_json_block :: "string \<Rightarrow> string option" where
  \<comment> \<open>\<open>cleanOutput.match(/```json\s*\n([\s\S]*?)\n```/)\<close>: the group of the leftmost match\<close>
  "match_json_block [] = None"
| "match_json_block (c # cs) =
     (if startsWith (c # cs) ''```json''
      then (case json_block_at (drop 7 (c # cs)) of
              Some g \<Rightarrow> Some g
            | None \<Rightarrow> match_json_block cs)
      else match_json_block cs)"

function remove_nl_fence :: "string \<Rightarrow> string" where
  \<comment> \<open>\<open>.replace(/\n?```/g, '')\<close>\<close>
  "remove_nl_fence [] = []"
| "remove_nl_fence (c # cs) =
     (if c = CHR 0x0A \<and> startsWith cs ''```'' then remove_nl_fence (drop 3 cs)
      else if startsWith (c # cs) ''```'' then remove_nl_fence (drop 2 cs)
      else c # remove_nl_fence cs)"
  by pat_completeness auto
termination
  by (relation "measure length") auto

definition closing_fence_at :: "string \<Rightarrow> bool" where
  \<comment> \<open>the pattern \<open>\n?```\s*$\<close> at the start of the text\<close>
  "closing_fence_at t =
     ((startsWith t (CHR 0x0A # ''```'') \<and> list_all is_space (drop 4 t)) \<or>
      (startsWith t ''```'' \<and> list_all is_space (drop 3 t)))"

fun strip_closing_fence :: "string \<Rightarrow> string" where
  \<comment> \<open>\<open>.replace(/\n?```\s*$/, '')\<close>: the leftmost match goes, up to the end of the text\<close>
  "strip_closing_fence [] = []"
| "strip_closing_fence (c # cs) =
     (if closing_fence_at (c # cs) then [] else c # strip_closing_fence cs)"

definition strip_code_blocks :: "string \<Rightarrow> string" where
  \<comment> \<open>\<open>if (cleanOutput.includes('```json')) ... else if (cleanOutput.startsWith('```')) ...\<close>\<close>
  "strip_code_blocks cleanOutput =
     (if includes_str cleanOutput ''```json'' then
        (case match_json_block cleanOutput of
           Some jsonMatch \<Rightarrow> jsonMatch
         | None \<Rightarrow> remove_nl_fence (remove_fence ''```json'' cleanOutput))
      else if startsWith cleanOutput ''```''
      then strip_closing_fence (dropWhile is_space (drop 3 cleanOutput))
      else cleanOutput)"

subsection \<open>The text around the braces and the repair of a truncated document\<close>

definition cut_after_last_brace :: "string \<Rightarrow> string" where
  \<comment> \<open>\<open>lastBrace = s.lastIndexOf('}');
      if (lastBrace > 0 && lastBrace < s.length - 1) s = s.substring(0, lastBrace + 1)\<close>\<close>
  "cut_after_last_brace s =
     (if CHR ''}'' \<in> set (drop 1 s) then rev (dropWhile (\<lambda>c. c \<noteq> CHR ''}'') (rev s)) else s)"

definition closing_structure :: string where
  \<comment> \<open>the text appended by Strategies 1 and 2\<close>
  "closing_structure =
     [CHR 0x0A] @ ''  ],'' @ [CHR 0x0A] @
     ''  '' @ [CHR 0x22] @ ''issueBreakdown'' @ [CHR 0x22] @ '': {},'' @ [CHR 0x0A] @
     ''  '' @ [CHR 0x22] @ ''nextSteps'' @ [CHR 0x22] @ '': [],'' @ [CHR 0x0A] @
     ''  '' @ [CHR 0x22] @ ''verdict'' @ [CHR 0x22] @ '': '' @ [CHR 0x22, CHR 0x22] @ [CHR 0x0A] @
     ''}''"

definition issue_boundary_at :: "string \<Rightarrow> bool" where
  \<comment> \<open>the pattern \<open>\},\s*\n\s*\{\<close> at the start of the text: the white space after the
      comma holds a newline and is followed by a brace\<close>
  "issue_boundary_at t =
     (startsWith t ''},'' \<and> CHR 0x0A \<in> set (takeWhile is_space (drop 2 t)) \<and>
      startsWith (dropWhile is_space (drop 2 t)) ''{'')"

fun last_index_where :: "(string \<Rightarrow> bool) \<Rightarrow> string \<Rightarrow> nat option" where
  \<comment> \<open>the index of the last match that the \<open>exec\<close> loop finds. A match of either pattern
      holds its first character only once, so no match starts inside another one and the
      loop finds every position where the pattern matches\<close>
  "last_index_where p [] = None"
| "last_index_where p (c # cs) =
     (case last_index_where p cs of
        Some i \<Rightarrow> Some (Suc i)
      | None \<Rightarrow> if p (c # cs) then Some 0 else None)"

definition priority_at :: "string \<Rightarrow> nat option" where
  \<comment> \<open>the pattern \<open>"priority":\s*"(High|Medium|Low)"\s*\}\<close> at the start of the text: the
      length of the match\<close>
  "priority_at t =
     (case expect ([CHR 0x22] @ ''priority'' @ [CHR 0x22] @ '':'') t of
        None \<Rightarrow> None
      | Some t1 \<Rightarrow>
          (case expect [CHR 0x22] (dropWhile is_space t1) of
             None \<Rightarrow> None
           | Some t2 \<Rightarrow>
               (case first_some (\<lambda>w. expect (w @ [CHR 0x22]) t2) [''High'', ''Medium'', ''Low''] of
                  None \<Rightarrow> None
                | Some t3 \<Rightarrow>
                    (case expect ''}'' (dropWhile is_space t3) of
                       None \<Rightarrow> None
                     | Some t4 \<Rightarrow> Some (length t - length t4)))))"

fun last_match_end :: "(string \<Rightarrow> nat option) \<Rightarrow> string \<Rightarrow> nat option" where
  \<comment> \<open>\<open>match.index + match[0].length\<close> of the last match\<close>
  "last_match_end m [] = None"
| "last_match_end m (c # cs) =
     (case last_match_end m cs of
        Some e \<Rightarrow> Some (Suc e)
      | None \<Rightarrow> m (c # cs))"

definition fix_truncated :: "string \<Rightarrow> string" where
  \<comment> \<open>\<open>if (!cleanOutput.endsWith('}')) { Strategy 1, 2, 3 }\<close>\<close>
  "fix_truncated cleanOutput =
     (if endsWith cleanOutput ''}'' then cleanOutput
      else (case last_index_where issue_boundary_at cleanOutput of
              Some i \<Rightarrow> take (Suc i) cleanOutput @ closing_structure
            | None \<Rightarrow>
                (case last_match_end priority_at cleanOutput of
                   Some e \<Rightarrow> take e cleanOutput @ closing_structure
                 | None \<Rightarrow>
                     if CHR ''}'' \<in> set (drop 1 cleanOutput)
                     then rev (dropWhile (\<lambda>c. c \<noteq> CHR ''}'') (rev cleanOutput))
                     else cleanOutput)))"

subsection \<open>The two attempts to parse\<close>

definition open_quote_at :: "string \<Rightarrow> bool" where
  \<comment> \<open>the pattern \<open>:\s*"\<close> at the start of the text\<close>
  "open_quote_at t = (startsWith t '':'' \<and> startsWith (dropWhile is_space (drop 1 t)) [CHR 0x22])"

definition close_quote_at :: "string \<Rightarrow> bool" where
  \<comment> \<open>the pattern \<open>",\<close> at the start of the text\<close>
  "close_quote_at t = startsWith t [CHR 0x22, CHR '','']"

fun count_where :: "(string \<Rightarrow> bool) \<Rightarrow> string \<Rightarrow> nat" where
  \<comment> \<open>\<open>(text.match(/pattern/g) || []).length\<close>, for a pattern whose matches cannot overlap\<close>
  "count_where p [] = 0"
| "count_where p (c # cs) = (if p (c # cs) then 1 else 0) + count_where p cs"

fun fix_quotes_from :: "string \<Rightarrow> string \<Rightarrow> string" where
  \<comment> \<open>\<open>cleanOutput.replace(/([^\\])"/g, callback)\<close>, from the position after \<open>pre\<close> on;
      \<open>pre @ [p1]\<close> is \<open>cleanOutput.substring(0, offset + 1)\<close>\<close>
  "fix_quotes_from pre [] = []"
| "fix_quotes_from pre [c] = [c]"
| "fix_quotes_from pre (p1 # q # rest) =
     (if p1 \<noteq> CHR 0x5C \<and> q = CHR 0x22
      then (let beforeQuote = pre @ [p1];
                openQuotes = count_where open_quote_at beforeQuote;
                closeQuotes = count_where close_quote_at beforeQuote
            in (if openQuotes > closeQuotes \<and> p1 \<noteq> CHR '':'' \<and> p1 \<noteq> CHR ''['' \<and> p1 \<noteq> CHR ''{''
                then [p1, CHR 0x5C, CHR 0x22] else [p1, q]) @
               fix_quotes_from (pre @ [p1, q]) rest)
      else p1 # fix_quotes_from (pre @ [p1]) (q # rest))"

definition parse_or_fix :: "string \<Rightarrow> js_error + json" where
  \<comment> \<open>\<open>Inl\<close> is the \<open>parseError\<close> thrown again when the second attempt fails as well\<close>
  "parse_or_fix cleanOutput =
     (case JSON_parse cleanOutput of
        Some reviewData \<Rightarrow> Inr reviewData
      | None \<Rightarrow>
          (case JSON_parse (fix_quotes_from [] cleanOutput) of
             Some reviewData \<Rightarrow> Inr reviewData
           | None \<Rightarrow> Inl SyntaxError))"

definition parse_agent_output :: "(string \<Rightarrow> string) \<Rightarrow> string \<Rightarrow> js_error + json" where
  \<comment> \<open>from \<open>stdout\<close> to \<open>reviewData\<close>; \<open>Inl\<close> is an error thrown to \<open>catch (jsonError)\<close>\<close>
  "parse_agent_output unescape stdout =
     (case unwrap unescape (trim stdout) of
        Inl e \<Rightarrow> Inl e
      | Inr cleanOutput \<Rightarrow>
          parse_or_fix
            (fix_truncated
              (cut_after_last_brace (from_first_brace (strip_code_blocks cleanOutput)))))"

section \<open>The review orchestration (index.ts, review/three-phase-reviewer.ts, review/cursor-agent.ts)\<close>

text \<open>
  The external collaborators (the cursor-agent process, the GitLab API, the file system) are
  not code of the repository. Each call is modelled by its outcome, given by a record of
  the environment: \<open>Inl\<close> is a rejected promise or a thrown error (a time-out rejects the
  promise), \<open>Inr\<close> the value. \<open>process.exit\<close> ends the run: it is the outcome \<open>Exit\<close>.
\<close>

datatype 'a outcome = Returned 'a | Exit int

record Phase1Issue =
  p1_file :: string
  p1_diff_line :: "int option"
  p1_codeSnippet :: string
  p1_severity :: string
  p1_title :: string
  p1_issue :: string
  p1_recommendation :: string
  p1_codeExample :: "string option"
  p1_effort :: string
  p1_impact :: string

record Phase1Response =
  p1_assessment :: json
  p1_metrics :: json
  p1_issues :: "Phase1Issue list"

record InlineComment =
  ic_new_path :: string
  ic_file :: string
  ic_diff_line :: "int option"
  ic_new_line :: "int option"
  ic_old_line :: "int option"
  ic_newLineCode :: string
  ic_severity :: string
  ic_title :: string
  ic_message :: string
  ic_recommendation :: string
  ic_codeExample :: "string option"
  ic_effort :: string
  ic_impact :: string
  ic_position_type :: string

record ReviewIssue =
  \<comment> \<open>an issue of the single-phase review, after Step 2; the fields that Step 3 reads\<close>
  ri_new_path :: "string option"
  ri_file :: "string option"
  ri_new_line :: "int option"
  ri_line :: "int option"
  ri_issue :: "string option"
  ri_title :: "string option"
  ri_severity :: "string option"

record AIReview =
  assessment :: json
  metrics :: json
  inlineComments :: "InlineComment list"
  issueBreakdown :: "string list \<times> string list \<times> string list"
  verdict :: string

record environment =
  phase1 :: "js_error + Phase1Response"
    \<comment> \<open>Phase 1: \<open>executeCursorAgent\<close> and \<open>parseAIResponse\<close> of its output\<close>
  phase3 :: "InlineComment list \<Rightarrow> ExistingDiscussionComment list \<Rightarrow> js_error + InlineComment list"
    \<comment> \<open>Phase 3, for the prompt built from the located issues and the existing discussions:
        \<open>executeCursorAgent\<close>, \<open>parseAIResponse\<close>, and the field \<open>filteredIssues\<close>\<close>
  cursorApiKey :: bool
    \<comment> \<open>\<open>CONFIG.cursorApiKey\<close> is set\<close>
  before_agent :: "js_error + ExistingDiscussionComment list option"
    \<comment> \<open>the single-phase review up to the agent call: the setup, the existing discussions
        (\<open>None\<close> when the stored file cannot be loaded), the diff, the prompt; \<open>Inl\<close> when one
        of them throws or there is no diff\<close>
  agent :: "js_error + string"
    \<comment> \<open>the agent call of the single-phase review: its standard output\<close>
  json_string_value :: "string \<Rightarrow> string"
    \<comment> \<open>the value that \<open>JSON.parse\<close> gives to a string literal, from its lexeme\<close>
  after_json :: "json \<Rightarrow> js_error + ReviewIssue list"
    \<comment> \<open>from \<open>reviewData\<close> to \<open>reviewData.issues\<close> after Step 2: the validation,
        \<open>fixIncompleteJSON\<close>, the required fields, the line positions; \<open>Inl\<close> on each path
        that ends in \<open>process.exit(1)\<close>\<close>





definition or_string :: "string option \<Rightarrow> string \<Rightarrow> string" where
  \<comment> \<open>\<open>a || b\<close> for a string that may be missing\<close>
  "or_string a b = (case a of None \<Rightarrow> b | Some s \<Rightarrow> if s = [] then b else s)"

definition or_int :: "int option \<Rightarrow> int \<Rightarrow> int" where
  \<comment> \<open>\<open>a || b\<close> for a number that may be missing\<close>
  "or_int a b = (case a of None \<Rightarrow> b | Some n \<Rightarrow> if n = 0 then b else n)"

definition is_local_duplicate :: "ExistingDiscussionComment list \<Rightarrow> ReviewIssue \<Rightarrow> bool" where
  \<comment> \<open>the test of Step 3 for one issue\<close>
  "is_local_duplicate comments issue =
     isSimilarCommentExists (or_string (ri_new_path issue) (or_string (ri_file issue) []))
       (or_int (ri_new_line issue) (or_int (ri_line issue) 0))
       (or_string (ri_issue issue) []) comments 3"

definition filter_duplicates ::
  "ExistingDiscussionComment list option \<Rightarrow> ReviewIssue list \<Rightarrow> ReviewIssue list" where
  \<comment> \<open>Step 3: \<open>if (existingDiscussions && reviewData.issues) ... filter\<close>\<close>
  "filter_duplicates existingDiscussions issues =
     (case existingDiscussions of
        None \<Rightarrow> issues
      | Some comments \<Rightarrow> filter (\<lambda>issue. \<not> is_local_duplicate comments issue) issues)"

definition runCursorAgentReview :: "environment \<Rightarrow> ReviewIssue list option outcome" where
  \<comment> \<open>the single-phase review; the value returned is kept as the issues that the
      transformation to an \<open>AIReview\<close> maps one to one to inline comments. When the JSON
      stage throws, \<open>catch (jsonError)\<close> calls \<open>parseMarkdownReview\<close>, which throws or returns
      an object with the properties \<open>inlineComments\<close>, \<open>metrics\<close>, \<open>issueBreakdown\<close>,
      \<open>nextSteps\<close>, \<open>verdict\<close> and \<open>assessment\<close>: the required field \<open>issues\<close> is missing,
      and both ways end in \<open>process.exit(1)\<close>\<close>
  "runCursorAgentReview env =
     (if \<not> cursorApiKey env then Returned None
      else (case before_agent env of
              Inl e \<Rightarrow> Exit 1
            | Inr existingDiscussions \<Rightarrow>
                (case agent env of
                   Inl e \<Rightarrow> Exit 1
                 | Inr stdout \<Rightarrow>
                     if stdout = [] \<or> length (trim stdout) = 0 then Exit 1
                     else (case parse_agent_output (json_string_value env) stdout of
                             Inl e \<Rightarrow> Exit 1
                           | Inr reviewData \<Rightarrow>
                               (case after_json env reviewData of
                                  Inl e \<Rightarrow> Exit 1
                                | Inr issues \<Rightarrow>
                                    Returned (Some (filter_duplicates existingDiscussions issues)))))))"

datatype review = ThreePhase AIReview | SinglePhase "ReviewIssue list"


section \<open>Notions used in the statements\<close>

fun numbered :: "int \<Rightarrow> int \<Rightarrow> DiffLine list \<Rightarrow> bool" where
  \<comment> \<open>the lines carry the numbers that two counters give them, one for the old and one for
      the new file, each stepped by the lines present in that file\<close>
  "numbered ol nl [] = True"
| "numbered ol nl (l # ls) =
     (case type l of
        Added \<Rightarrow> old_line l = None \<and> new_line l = Some nl \<and> numbered ol (nl + 1) ls
      | Removed \<Rightarrow> old_line l = Some ol \<and> new_line l = None \<and> numbered (ol + 1) nl ls
      | Context \<Rightarrow> old_line l = Some ol \<and> new_line l = Some nl \<and> numbered (ol + 1) (nl + 1) ls)"

definition MAX_SAFE_INTEGER :: int where
  \<comment> \<open>\<open>Number.MAX_SAFE_INTEGER\<close>\<close>
  "MAX_SAFE_INTEGER = 2 ^ 53 - 1"

definition safe_numbers :: "DiffHunk \<Rightarrow> bool" where
  \<comment> \<open>the two start numbers of the header and every value that the two counters take in
      the hunk are integers on which the doubles are exact\<close>
  "safe_numbers h =
     (oldStart h + int (length (lines h)) \<le> MAX_SAFE_INTEGER \<and>
      newStart h + int (length (lines h)) \<le> MAX_SAFE_INTEGER)"

definition count_type :: "LineType \<Rightarrow> DiffLine list \<Rightarrow> int" where
  "count_type t ls = int (length (filter (\<lambda>l. type l = t) ls))"

definition all_lines :: "FileDiff \<Rightarrow> DiffLine list" where
  \<comment> \<open>the lines of a file in scanning order: hunk by hunk\<close>
  "all_lines fileDiff = concat (map lines (hunks fileDiff))"

definition accepted :: "string \<Rightarrow> bool" where
  \<comment> \<open>the snippet passes the rejection filters of the resolver\<close>
  "accepted codeContent =
     (codeContent \<noteq> [] \<and> trim codeContent \<noteq> [] \<and> 5 \<le> length (normalizeCode codeContent) \<and>
      normalizeCode codeContent \<notin> set genericPatterns)"

definition first_match :: "string \<Rightarrow> FileDiff \<Rightarrow> DiffLine option" where
  \<comment> \<open>the first line of the file, in scanning order, that is not Removed and has the normal
      form of the snippet\<close>
  "first_match codeContent fileDiff =
     find (\<lambda>l. type l \<noteq> Removed \<and> normalizeCode (content l) = normalizeCode codeContent)
       (all_lines fileDiff)"

definition short_strings :: "string \<Rightarrow> FileDiff \<Rightarrow> bool" where
  \<comment> \<open>the normal forms of the snippet and of the lines have fewer than \<open>2^26\<close> characters:
      the comparisons of the scores, which the code makes on doubles, then have the outcome
      of the comparisons of the exact quotients\<close>
  "short_strings codeContent fileDiff =
     (length (normalizeCode codeContent) < 2 ^ 26 \<and>
      list_all (\<lambda>l. length (normalizeCode (content l)) < 2 ^ 26) (all_lines fileDiff))"

definition candidate :: "DiffLine \<Rightarrow> bool" where
  \<comment> \<open>a line that the scan compares with the snippet\<close>
  "candidate l = (type l \<noteq> Removed \<and> 3 \<le> length (normalizeCode (content l)))"

definition not_removed :: "DiffLine list \<Rightarrow> DiffLine list" where
  "not_removed ls = filter (\<lambda>l. type l \<noteq> Removed) ls"

definition containment_score :: "string \<Rightarrow> string \<Rightarrow> rat" where
  \<comment> \<open>length of the contained string over length of the containing one, when the contained
      string has at least 15 characters\<close>
  "containment_score t l =
     max (if 15 \<le> length t \<and> includes_str l t then of_nat (length t) / of_nat (length l) else 0)
         (if 15 \<le> length l \<and> includes_str t l then of_nat (length l) / of_nat (length t) else 0)"

definition overlap_score :: "string \<Rightarrow> string \<Rightarrow> rat" where
  \<comment> \<open>characters equal at the same index over the longer length, for two strings of at least
      20 characters\<close>
  "overlap_score t l =
     (if 20 \<le> length t \<and> 20 \<le> length l
      then of_nat (matchingChars t l) / of_nat (max (length t) (length l)) else 0)"

definition spec_score :: "string \<Rightarrow> DiffLine \<Rightarrow> rat" where
  \<comment> \<open>the score of a candidate as the specification words it\<close>
  "spec_score t l =
     max (containment_score t (normalizeCode (content l))) (overlap_score t (normalizeCode (content l)))"

definition fuzzy_score :: "string \<Rightarrow> DiffLine \<Rightarrow> rat" where
  \<comment> \<open>the score of a candidate where the overlap counts only above 0.6\<close>
  "fuzzy_score t l =
     max (containment_score t (normalizeCode (content l)))
         (if overlap_score t (normalizeCode (content l)) > 3 / 5
          then overlap_score t (normalizeCode (content l)) else 0)"

definition first_best :: "('a \<Rightarrow> rat) \<Rightarrow> 'a list \<Rightarrow> 'a option" where
  \<comment> \<open>the first element whose score no element exceeds\<close>
  "first_best f xs = find (\<lambda>x. \<forall>y \<in> set xs. f y \<le> f x) xs"

definition upd :: "rat \<Rightarrow> LinePosition \<Rightarrow> best \<Rightarrow> best" where
  \<comment> \<open>the update that each of the three methods makes: a strictly better score replaces
      the best match\<close>
  "upd s m b = (if s > snd b then (Some m, s) else b)"

definition constant_offset :: "DiffHunk \<Rightarrow> bool" where
  \<comment> \<open>the property as the specification words it: on every context line the new number
      minus the old number is \<open>new_start - old_start\<close>\<close>
  "constant_offset h =
     (\<forall>l \<in> set (lines h). type l = Context \<longrightarrow>
        (\<exists>ol nl. old_line l = Some ol \<and> new_line l = Some nl \<and> nl - ol = newStart h - oldStart h))"

definition in_window :: "string \<Rightarrow> int \<Rightarrow> int \<Rightarrow> ExistingDiscussionComment \<Rightarrow> bool" where
  \<comment> \<open>a comment that the loop compares: same file, a line that is present and not 0, within
      the tolerance\<close>
  "in_window filePath lineNumber lineToleranceRange c =
     (c_file c = Some filePath \<and>
      (\<exists>l. c_line c = Some l \<and> l \<noteq> 0 \<and> \<bar>l - lineNumber\<bar> \<le> lineToleranceRange))"

definition word_set :: "string \<Rightarrow> string set" where
  "word_set text = set (normalize text)"

section \<open>The invariant of the parser state\<close>

definition hunk_ok :: "DiffHunk \<Rightarrow> bool" where
  "hunk_ok h = numbered (oldStart h) (newStart h) (lines h)"

definition counters_ok :: "pstate \<Rightarrow> bool" where
  \<comment> \<open>the two counters are those of the current hunk, after its lines\<close>
  "counters_ok s =
     (case currentHunk s of
        None \<Rightarrow> True
      | Some a \<Rightarrow>
          a < length (hunk_store s) \<and>
          oldLineNumber s = oldStart (hunk_store s ! a) +
             count_type Removed (lines (hunk_store s ! a)) + count_type Context (lines (hunk_store s ! a)) \<and>
          newLineNumber s = newStart (hunk_store s ! a) +
             count_type Added (lines (hunk_store s ! a)) + count_type Context (lines (hunk_store s ! a)))"

definition refs_ok :: "pstate \<Rightarrow> bool" where
  \<comment> \<open>every address held by the state is allocated\<close>
  "refs_ok s =
     ((case currentFile s of None \<Rightarrow> True | Some f \<Rightarrow> f < length (file_store s)) \<and>
      list_all (\<lambda>fo. list_all (\<lambda>a. a < length (hunk_store s)) (f_hunks fo)) (file_store s) \<and>
      (\<forall>k f. files s k = Some f \<longrightarrow> f < length (file_store s)))"

definition pinv :: "pstate \<Rightarrow> bool" where
  "pinv s = (list_all hunk_ok (hunk_store s) \<and> counters_ok s \<and> refs_ok s)"

section \<open>Example inputs\<close>

definition join_lines :: "string list \<Rightarrow> string" where
  \<comment> \<open>\<open>lines.join('\n')\<close>\<close>
  "join_lines ls = concat (case ls of [] \<Rightarrow> [] | l # r \<Rightarrow> l # map (\<lambda>x. CHR 0x0A # x) r)"

definition start_diff :: string where
  "start_diff = join_lines
     [''diff --git a/app.js b/app.js'',
      ''index 83db48f..bf12a3c 100644'',
      ''--- a/app.js'',
      ''+++ b/app.js'',
      ''@@ -10,3 +10,4 @@'',
      '' function main() {'',
      ''+  console.log('' @ [CHR 0x22] @ ''start'' @ [CHR 0x22] @ '');'',
      ''   run();'',
      '' }'']"

definition start_snippet :: string where
  "start_snippet = ''console.log('' @ [CHR 0x22] @ ''start'' @ [CHR 0x22] @ '');''"

definition start_hunk :: DiffHunk where
  \<comment> \<open>the hunk that the parser builds from \<open>start_diff\<close>\<close>
  "start_hunk =
     \<lparr>oldStart = 10, oldCount = 3, newStart = 10, newCount = 4,
      lines =
        [\<lparr>type = Context, content = ''function main() {'', old_line = Some 10, new_line = Some 10,
           diff_line_in_patch = 6\<rparr>,
         \<lparr>type = Added, content = ''  console.log('' @ [CHR 0x22] @ ''start'' @ [CHR 0x22] @ '');'',
           old_line = None, new_line = Some 11, diff_line_in_patch = 7\<rparr>,
         \<lparr>type = Context, content = ''  run();'', old_line = Some 11, new_line = Some 12,
           diff_line_in_patch = 8\<rparr>,
         \<lparr>type = Context, content = ''}'', old_line = Some 12, new_line = Some 13,
           diff_line_in_patch = 9\<rparr>],
      headerLine = ''@@ -10,3 +10,4 @@''\<rparr>"

definition start_file :: FileDiff where
  "start_file = \<lparr>oldPath = ''app.js'', newPath = ''app.js'', isNewFile = False,
     isDeletedFile = False, hunks = [start_hunk]\<rparr>"

definition repeat_diff :: string where
  \<comment> \<open>the hunk of \<open>start_diff\<close> with a context line that reads like the added line\<close>
  "repeat_diff = join_lines
     [''diff --git a/app.js b/app.js'',
      ''--- a/app.js'',
      ''+++ b/app.js'',
      ''@@ -10,3 +10,4 @@'',
      '' console.log('' @ [CHR 0x22] @ ''start'' @ [CHR 0x22] @ '');'',
      ''+console.log('' @ [CHR 0x22] @ ''start'' @ [CHR 0x22] @ '');'',
      ''   run();'',
      '' }'']"

definition repeat_hunk :: DiffHunk where
  \<comment> \<open>the hunk that the parser builds from \<open>repeat_diff\<close>\<close>
  "repeat_hunk =
     \<lparr>oldStart = 10, oldCount = 3, newStart = 10, newCount = 4,
      lines =
        [\<lparr>type = Context, content = start_snippet, old_line = Some 10, new_line = Some 10,
           diff_line_in_patch = 5\<rparr>,
         \<lparr>type = Added, content = start_snippet, old_line = None, new_line = Some 11,
           diff_line_in_patch = 6\<rparr>,
         \<lparr>type = Context, content = ''  run();'', old_line = Some 11, new_line = Some 12,
           diff_line_in_patch = 7\<rparr>,
         \<lparr>type = Context, content = ''}'', old_line = Some 12, new_line = Some 13,
           diff_line_in_patch = 8\<rparr>],
      headerLine = ''@@ -10,3 +10,4 @@''\<rparr>"

definition repeat_file :: FileDiff where
  "repeat_file = \<lparr>oldPath = ''app.js'', newPath = ''app.js'', isNewFile = False,
     isDeletedFile = False, hunks = [repeat_hunk]\<rparr>"

definition imm_diff :: string where
  "imm_diff = join_lines
     [''diff --git a/src/Handler.java b/src/Handler.java'',
      ''index 4f1c2aa..9d0e7b3 100644'',
      ''--- a/src/Handler.java'',
      ''+++ b/src/Handler.java'',
      ''@@ -1699,7 +1699,7 @@ public class Handler {'',
      ''     Request request = builder.build('',
      ''         context.getId(),'',
      ''         context.getName(),'',
      ''-        context.getImm());'',
      ''+        context.getImm(), null);'',
      ''     send(request);'',
      ''     return request;'']"

definition imm_added :: DiffLine where
  "imm_added = \<lparr>type = Added, content = ''        context.getImm(), null);'', old_line = None,
     new_line = Some 1702, diff_line_in_patch = 10\<rparr>"

definition imm_file :: FileDiff where
  \<comment> \<open>the file that the parser builds from \<open>imm_diff\<close>\<close>
  "imm_file =
     \<lparr>oldPath = ''src/Handler.java'', newPath = ''src/Handler.java'', isNewFile = False,
      isDeletedFile = False,
      hunks =
        [\<lparr>oldStart = 1699, oldCount = 7, newStart = 1699, newCount = 7,
          lines =
            [\<lparr>type = Context, content = ''    Request request = builder.build('',
               old_line = Some 1699, new_line = Some 1699, diff_line_in_patch = 6\<rparr>,
             \<lparr>type = Context, content = ''        context.getId(),'',
               old_line = Some 1700, new_line = Some 1700, diff_line_in_patch = 7\<rparr>,
             \<lparr>type = Context, content = ''        context.getName(),'',
               old_line = Some 1701, new_line = Some 1701, diff_line_in_patch = 8\<rparr>,
             \<lparr>type = Removed, content = ''        context.getImm());'',
               old_line = Some 1702, new_line = None, diff_line_in_patch = 9\<rparr>,
             imm_added,
             \<lparr>type = Context, content = ''    send(request);'',
               old_line = Some 1703, new_line = Some 1703, diff_line_in_patch = 11\<rparr>,
             \<lparr>type = Context, content = ''    return request;'',
               old_line = Some 1704, new_line = Some 1704, diff_line_in_patch = 12\<rparr>],
          headerLine = ''@@ -1699,7 +1699,7 @@ public class Handler {''\<rparr>]\<rparr>"

definition imm_partial_snippet :: string where
  \<comment> \<open>the added line of \<open>imm_diff\<close> without its last two characters\<close>
  "imm_partial_snippet = ''context.getImm(), null''"

definition overlap_diff :: string where
  "overlap_diff = join_lines
     [''diff --git a/t.js b/t.js'',
      ''--- a/t.js'',
      ''+++ b/t.js'',
      ''@@ -1,1 +1,2 @@'',
      '' start'',
      ''+abcdefghijKLMNOPQRST'']"

definition overlap_line :: DiffLine where
  "overlap_line = \<lparr>type = Added, content = ''abcdefghijKLMNOPQRST'', old_line = None,
     new_line = Some 2, diff_line_in_patch = 6\<rparr>"

definition overlap_file :: FileDiff where
  "overlap_file = \<lparr>oldPath = ''t.js'', newPath = ''t.js'', isNewFile = False, isDeletedFile = False,
     hunks = [\<lparr>oldStart = 1, oldCount = 1, newStart = 1, newCount = 2,
               lines = [\<lparr>type = Context, content = ''start'', old_line = Some 1, new_line = Some 1,
                          diff_line_in_patch = 5\<rparr>, overlap_line],
               headerLine = ''@@ -1,1 +1,2 @@''\<rparr>]\<rparr>"

definition overlap_snippet :: string where
  "overlap_snippet = ''abcdefghijklmnopqrst''"

definition comment_at :: "string \<Rightarrow> int \<Rightarrow> string \<Rightarrow> ExistingDiscussionComment" where
  \<comment> \<open>an example comment on a line of a file\<close>
  "comment_at f l b =
     \<lparr>comment_id = ''d1-n1'', c_file = Some f, c_line = Some l, c_body = b, c_author = ''reviewer'',
      c_createdAt = ''2024-01-01T00:00:00Z'', c_isSystemNote = False\<rparr>"

definition truncated_response :: string where
  \<comment> \<open>an issues array cut in the middle of its second element\<close>
  "truncated_response = join_lines
     [''```json'',
      ''{'',
      ''  '' @ [CHR 0x22] @ ''issues'' @ [CHR 0x22] @ '': ['',
      ''    {'' @ [CHR 0x22] @ ''file'' @ [CHR 0x22] @ '': '' @ [CHR 0x22] @ ''app.js'' @ [CHR 0x22] @ ''},'',
      ''    {'' @ [CHR 0x22] @ ''file'' @ [CHR 0x22] @ '': '' @ [CHR 0x22] @ ''ap'']"

definition truncated_review :: string where
  \<comment> \<open>an answer of the single-phase review cut in the middle of its second issue\<close>
  "truncated_review = join_lines
     [''{'',
      ''  '' @ [CHR 0x22] @ ''assessment'' @ [CHR 0x22] @ '': {'' @ [CHR 0x22] @ ''summary'' @ [CHR 0x22] @
        '': '' @ [CHR 0x22] @ ''Good'' @ [CHR 0x22] @ ''},'',
      ''  '' @ [CHR 0x22] @ ''metrics'' @ [CHR 0x22] @ '': [],'',
      ''  '' @ [CHR 0x22] @ ''issues'' @ [CHR 0x22] @ '': ['',
      ''    {'' @ [CHR 0x22] @ ''file'' @ [CHR 0x22] @ '': '' @ [CHR 0x22] @ ''app.js'' @ [CHR 0x22] @
        '', '' @ [CHR 0x22] @ ''priority'' @ [CHR 0x22] @ '': '' @ [CHR 0x22] @ ''High'' @ [CHR 0x22] @ ''},'',
      ''    {'' @ [CHR 0x22] @ ''file'' @ [CHR 0x22] @ '': '' @ [CHR 0x22] @ ''ap'']"

definition quoted_review :: string where
  \<comment> \<open>\<open>{"a": "b "c{"}\<close>: a quote inside a string is not escaped\<close>
  "quoted_review =
     ''{'' @ [CHR 0x22] @ ''a'' @ [CHR 0x22] @ '': '' @ [CHR 0x22] @ ''b '' @ [CHR 0x22] @ ''c{'' @
     [CHR 0x22] @ ''}''"

definition wrapped_review :: string where
  \<comment> \<open>\<open>{"type":"result","result":"Review: {}"}\<close>\<close>
  "wrapped_review =
     wrapper_prefix @ '','' @ [CHR 0x22] @ ''result'' @ [CHR 0x22] @ '':'' @ [CHR 0x22] @
     ''Review: {}'' @ [CHR 0x22] @ ''}''"

definition wrapped_list :: string where
  \<comment> \<open>\<open>{"type":"result","result":[1]}\<close>\<close>
  "wrapped_list = wrapper_prefix @ '','' @ [CHR 0x22] @ ''result'' @ [CHR 0x22] @ '':[1]}''"

definition priority_cut :: string where
  \<comment> \<open>\<open>{"issues": [{"priority": "Low" }, {"pri\<close>\<close>
  "priority_cut =
     ''{'' @ [CHR 0x22] @ ''issues'' @ [CHR 0x22] @ '': [{'' @ [CHR 0x22] @ ''priority'' @ [CHR 0x22] @
     '': '' @ [CHR 0x22] @ ''Low'' @ [CHR 0x22] @ '' }, {'' @ [CHR 0x22] @ ''pri''"

definition brace_cut :: string where
  \<comment> \<open>\<open>{"a": {}, "b\<close>\<close>
  "brace_cut = ''{'' @ [CHR 0x22] @ ''a'' @ [CHR 0x22] @ '': {}, '' @ [CHR 0x22] @ ''b''"

definition fenced_response :: string where
  \<comment> \<open>a complete document inside a code fence, with text around it\<close>
  "fenced_response = join_lines
     [''Here is the review:'',
      ''```json'',
      ''{'' @ [CHR 0x22] @ ''issues'' @ [CHR 0x22] @ '': []}'',
      ''```'',
      ''Done.'']"

definition start_issue :: Phase1Issue where
  \<comment> \<open>an issue on the added line of \<open>start_diff\<close>\<close>
  "start_issue = \<lparr>p1_file = ''app.js'', p1_diff_line = Some 7, p1_codeSnippet = start_snippet,
     p1_severity = ''minor'', p1_title = ''Console statement'', p1_issue = ''Remove the debug output'',
     p1_recommendation = ''Use the logger'', p1_codeExample = None, p1_effort = ''5 minutes'',
     p1_impact = ''Cleaner logs''\<rparr>"


definition short_issue :: ReviewIssue where
  "short_issue = \<lparr>ri_new_path = Some ''F'', ri_file = Some ''F'', ri_new_line = Some 10, ri_line = Some 10,
     ri_issue = Some ''ok'', ri_title = Some ''t'', ri_severity = Some ''minor''\<rparr>"

definition agent_recovers :: environment where
  \<comment> \<open>Phase 3 times out; the agent call of the single-phase review succeeds\<close>
  "agent_recovers =
     \<lparr>phase1 = Inr \<lparr>p1_assessment = JNull, p1_metrics = JArray [], p1_issues = [start_issue]\<rparr>,
      phase3 = (\<lambda>issues existing. Inl AgentError),
      cursorApiKey = True,
      before_agent = Inr (Some [comment_at ''F'' 12 ''a b c'']),
      agent = Inr ''{}'',
      json_string_value = (\<lambda>lexeme. lexeme),
      after_json = (\<lambda>reviewData. Inr [short_issue, short_issue\<lparr>ri_new_line := Some 40\<rparr>])\<rparr>"



definition agent_truncated :: environment where
  \<comment> \<open>the agent call of the single-phase review returns a truncated answer; every other
      step succeeds\<close>
  "agent_truncated = agent_recovers\<lparr>agent := Inr truncated_review\<rparr>"

section \<open>The numbering of the parsed lines\<close>

lemma count_type_append:
  "count_type t (xs @ ys) = count_type t xs + count_type t ys"
  by (simp add: count_type_def)

lemma count_type_Cons:
  "count_type t (x # xs) = (if type x = t then 1 else 0) + count_type t xs"
  by (simp add: count_type_def)

lemma count_type_Nil: "count_type t [] = 0"
  by (simp add: count_type_def)

lemma numbered_append:
  "numbered a b (xs @ [l]) =
     (numbered a b xs \<and>
      (case type l of
         Added \<Rightarrow> old_line l = None \<and>
                   new_line l = Some (b + count_type Added xs + count_type Context xs)
       | Removed \<Rightarrow> old_line l = Some (a + count_type Removed xs + count_type Context xs) \<and>
                   new_line l = None
       | Context \<Rightarrow> old_line l = Some (a + count_type Removed xs + count_type Context xs) \<and>
                   new_line l = Some (b + count_type Added xs + count_type Context xs)))"
proof (induction xs arbitrary: a b)
  case Nil
  show ?case by (cases "type l") (simp_all add: count_type_Nil)
next
  case (Cons x xs)
  show ?case
    by (cases "type x"; cases "type l") (auto simp: Cons.IH count_type_Cons)
qed

lemma numbered_prefix: "numbered a b (xs @ ys) \<Longrightarrow> numbered a b xs"
proof (induction xs arbitrary: a b)
  case Nil
  show ?case by simp
next
  case (Cons x xs)
  then show ?case by (cases "type x") auto
qed

lemma numbered_nth:
  assumes "numbered a b ls" and "i < length ls"
  shows "case type (ls ! i) of
           Added \<Rightarrow> old_line (ls ! i) = None \<and>
                     new_line (ls ! i) = Some (b + count_type Added (take i ls) + count_type Context (take i ls))
         | Removed \<Rightarrow> old_line (ls ! i) = Some (a + count_type Removed (take i ls) + count_type Context (take i ls)) \<and>
                     new_line (ls ! i) = None
         | Context \<Rightarrow> old_line (ls ! i) = Some (a + count_type Removed (take i ls) + count_type Context (take i ls)) \<and>
                     new_line (ls ! i) = Some (b + count_type Added (take i ls) + count_type Context (take i ls))"
proof -
  have "ls = (take i ls @ [ls ! i]) @ drop (Suc i) ls"
    using assms(2) by (simp add: Cons_nth_drop_Suc)
  then have "numbered a b ((take i ls @ [ls ! i]) @ drop (Suc i) ls)"
    using assms(1) by simp
  then have "numbered a b (take i ls @ [ls ! i])"
    by (rule numbered_prefix)
  then show ?thesis by (simp add: numbered_append)
qed

subsection \<open>The invariant is kept\<close>

lemma pinv_init: "pinv init_pstate"
  by (simp add: pinv_def init_pstate_def counters_ok_def refs_ok_def)

lemma list_all_update:
  "list_all P xs \<Longrightarrow> P x \<Longrightarrow> list_all P (xs[i := x])"
  by (metis list_all_length length_list_update nth_list_update_eq nth_list_update_neq)

lemma pinv_push_hunk:
  assumes "pinv s" and "f < length (file_store s)" and "h < length (hunk_store s)"
  shows "pinv (push_hunk f h s)"
proof -
  have a: "list_all (\<lambda>a. a < length (hunk_store s)) (f_hunks (file_store s ! f))"
    using assms(1,2) by (simp add: pinv_def refs_ok_def list_all_length)
  have "list_all (\<lambda>fo. list_all (\<lambda>a. a < length (hunk_store s)) (f_hunks fo))
          ((file_store s)[f := (file_store s ! f)\<lparr>f_hunks := f_hunks (file_store s ! f) @ [h]\<rparr>])"
    using assms a by (intro list_all_update) (simp_all add: pinv_def refs_ok_def)
  then show ?thesis
    using assms(1) by (simp add: pinv_def refs_ok_def counters_ok_def push_hunk_def split: option.splits)
qed

lemma push_hunk_fields [simp]:
  "currentFile (push_hunk f h s) = currentFile s"
  "currentHunk (push_hunk f h s) = currentHunk s"
  "hunk_store (push_hunk f h s) = hunk_store s"
  "length (file_store (push_hunk f h s)) = length (file_store s)"
  "oldLineNumber (push_hunk f h s) = oldLineNumber s"
  "newLineNumber (push_hunk f h s) = newLineNumber s"
  by (simp_all add: push_hunk_def)

lemma pinv_currentFile: "pinv s \<Longrightarrow> currentFile s = Some f \<Longrightarrow> f < length (file_store s)"
  by (simp add: pinv_def refs_ok_def)

lemma pinv_currentHunk: "pinv s \<Longrightarrow> currentHunk s = Some h \<Longrightarrow> h < length (hunk_store s)"
  by (simp add: pinv_def counters_ok_def)

lemma pinv_save_file: "pinv s \<Longrightarrow> pinv (save_file s)"
  by (auto simp: pinv_def refs_ok_def counters_ok_def save_file_def split: option.splits)

lemma save_file_fields [simp]:
  "currentFile (save_file s) = currentFile s"
  "currentHunk (save_file s) = currentHunk s"
  "hunk_store (save_file s) = hunk_store s"
  "file_store (save_file s) = file_store s"
  by (simp_all add: save_file_def split: option.splits)

lemma pinv_no_hunk: "pinv s \<Longrightarrow> pinv (s\<lparr>currentHunk := None\<rparr>)"
  by (simp add: pinv_def refs_ok_def counters_ok_def split: option.splits)

lemma pinv_new_file:
  assumes "pinv s"
  shows "pinv (s\<lparr>file_store := file_store s @ [\<lparr>f_oldPath = a, f_newPath = b, f_isNewFile = False,
                    f_isDeletedFile = False, f_hunks = []\<rparr>],
                 currentFile := Some (length (file_store s))\<rparr>)"
  using assms by (auto simp: pinv_def refs_ok_def counters_ok_def less_Suc_eq split: option.splits)

lemma pinv_flag:
  assumes "pinv s" and "f_hunks fo = f_hunks (file_store s ! f)" and "f < length (file_store s)"
  shows "pinv (s\<lparr>file_store := (file_store s)[f := fo]\<rparr>)"
proof -
  have "list_all (\<lambda>a. a < length (hunk_store s)) (f_hunks fo)"
    using assms by (simp add: pinv_def refs_ok_def list_all_length)
  then have "list_all (\<lambda>fo. list_all (\<lambda>a. a < length (hunk_store s)) (f_hunks fo))
          ((file_store s)[f := fo])"
    using assms by (intro list_all_update) (simp_all add: pinv_def refs_ok_def)
  then show ?thesis
    using assms(1) by (simp add: pinv_def refs_ok_def counters_ok_def split: option.splits)
qed

lemma list_all_mono_len:
  assumes "list_all (\<lambda>fo. list_all (\<lambda>a. a < n) (f_hunks fo)) fs" and "n \<le> m"
  shows "list_all (\<lambda>fo. list_all (\<lambda>a. a < m) (f_hunks fo)) fs"
  unfolding list_all_iff
proof (intro ballI)
  fix fo a
  assume "fo \<in> set fs" and "a \<in> set (f_hunks fo)"
  then have "a < n"
    using assms(1) by (simp add: list_all_iff)
  then show "a < m"
    using assms(2) by simp
qed

lemma pinv_new_hunk:
  assumes "pinv s"
  shows "pinv (s\<lparr>hunk_store := hunk_store s @
                    [\<lparr>oldStart = os, oldCount = oc, newStart = ns, newCount = nc,
                      lines = [], headerLine = line\<rparr>],
                 currentHunk := Some (length (hunk_store s)),
                 oldLineNumber := os, newLineNumber := ns\<rparr>)"
proof -
  have "list_all (\<lambda>fo. list_all (\<lambda>a. a < Suc (length (hunk_store s))) (f_hunks fo)) (file_store s)"
  proof (rule list_all_mono_len)
    show "list_all (\<lambda>fo. list_all (\<lambda>a. a < length (hunk_store s)) (f_hunks fo)) (file_store s)"
      using assms by (simp add: pinv_def refs_ok_def)
    show "length (hunk_store s) \<le> Suc (length (hunk_store s))"
      by simp
  qed
  then show ?thesis
    using assms
    by (simp add: pinv_def refs_ok_def counters_ok_def hunk_ok_def count_type_Nil
             split: option.splits)
qed

lemma pinv_push_line:
  assumes "pinv s" and "currentHunk s = Some h"
    and "case type l of
           Added \<Rightarrow> old_line l = None \<and> new_line l = Some (newLineNumber s) \<and>
                     ol = oldLineNumber s \<and> nl = newLineNumber s + 1
         | Removed \<Rightarrow> old_line l = Some (oldLineNumber s) \<and> new_line l = None \<and>
                     ol = oldLineNumber s + 1 \<and> nl = newLineNumber s
         | Context \<Rightarrow> old_line l = Some (oldLineNumber s) \<and> new_line l = Some (newLineNumber s) \<and>
                     ol = oldLineNumber s + 1 \<and> nl = newLineNumber s + 1"
  shows "pinv ((push_line h l s)\<lparr>oldLineNumber := ol, newLineNumber := nl\<rparr>)"
proof -
  let ?H = "hunk_store s ! h"
  let ?H' = "?H\<lparr>lines := lines ?H @ [l]\<rparr>"
  have h: "h < length (hunk_store s)"
    and old: "oldLineNumber s = oldStart ?H + count_type Removed (lines ?H) + count_type Context (lines ?H)"
    and new: "newLineNumber s = newStart ?H + count_type Added (lines ?H) + count_type Context (lines ?H)"
    using assms(1,2) by (simp_all add: pinv_def counters_ok_def)
  have "hunk_ok ?H"
    using assms(1) h by (simp add: pinv_def list_all_length)
  then have ok: "hunk_ok ?H'"
    using assms(3) old new by (cases "type l") (simp_all add: hunk_ok_def numbered_append)
  have all: "list_all hunk_ok ((hunk_store s)[h := ?H'])"
    using assms(1) ok by (intro list_all_update) (simp_all add: pinv_def)
  have cnt: "counters_ok ((push_line h l s)\<lparr>oldLineNumber := ol, newLineNumber := nl\<rparr>)"
    using assms(2,3) h old new
    by (cases "type l")
       (simp_all add: counters_ok_def push_line_def count_type_append count_type_Cons count_type_Nil)
  have "refs_ok ((push_line h l s)\<lparr>oldLineNumber := ol, newLineNumber := nl\<rparr>)"
    using assms(1) by (simp add: pinv_def refs_ok_def push_line_def split: option.splits)
  with all cnt show ?thesis
    by (simp add: pinv_def push_line_def)
qed

lemma pinv_header_part:
  assumes "pinv s"
  shows "pinv (case currentHunk s of
                 None \<Rightarrow> s
               | Some h \<Rightarrow> (case currentFile s of None \<Rightarrow> s | Some f \<Rightarrow> push_hunk f h s))"
proof (cases "currentHunk s")
  case None
  then show ?thesis using assms by simp
next
  case h: (Some h)
  show ?thesis
  proof (cases "currentFile s")
    case None
    then show ?thesis using assms h by simp
  next
    case (Some f)
    have "pinv (push_hunk f h s)"
      using assms h Some by (intro pinv_push_hunk) (simp_all add: pinv_currentFile pinv_currentHunk)
    then show ?thesis using h Some by simp
  qed
qed

lemma pinv_parse_line:
  assumes "pinv s"
  shows "pinv (parse_line i line s)"
proof -
  consider (fileh) "startsWith line ''diff --git ''"
    | (newf) "\<not> startsWith line ''diff --git ''" "startsWith line ''new file mode''"
    | (delf) "\<not> startsWith line ''diff --git ''" "\<not> startsWith line ''new file mode''"
            "startsWith line ''deleted file mode''"
    | (hunkh) "\<not> startsWith line ''diff --git ''" "\<not> startsWith line ''new file mode''"
            "\<not> startsWith line ''deleted file mode''" "startsWith line ''@@''"
    | (body) "\<not> startsWith line ''diff --git ''" "\<not> startsWith line ''new file mode''"
            "\<not> startsWith line ''deleted file mode''" "\<not> startsWith line ''@@''"
    by blast
  then show ?thesis
  proof cases
    case fileh
    define s1 where "s1 = (case (currentHunk s, currentFile s) of
                     (Some h, Some f) \<Rightarrow> (push_hunk f h s)\<lparr>currentHunk := None\<rparr>
                   | _ \<Rightarrow> s)"
    have "pinv s1"
    proof (cases "currentHunk s")
      case None
      then show ?thesis using assms by (simp add: s1_def)
    next
      case h: (Some h)
      show ?thesis
      proof (cases "currentFile s")
        case None
        then show ?thesis using assms h by (simp add: s1_def)
      next
        case (Some f)
        have "pinv ((push_hunk f h s)\<lparr>currentHunk := None\<rparr>)"
          using assms h Some
          by (intro pinv_no_hunk pinv_push_hunk) (simp_all add: pinv_currentFile pinv_currentHunk)
        then show ?thesis using h Some by (simp add: s1_def)
      qed
    qed
    then have "pinv (save_file s1)"
      by (rule pinv_save_file)
    then have s2: "pinv (save_file s1\<lparr>file_store := file_store (save_file s1) @
                      [\<lparr>f_oldPath = a, f_newPath = b, f_isNewFile = False,
                        f_isDeletedFile = False, f_hunks = []\<rparr>],
                   currentFile := Some (length (file_store (save_file s1)))\<rparr>)" for a b
      by (rule pinv_new_file)
    show ?thesis
    proof (cases "match_file_header line")
      case None
      then show ?thesis
        using fileh \<open>pinv (save_file s1)\<close> by (simp add: parse_line_def s1_def Let_def)
    next
      case (Some r)
      obtain a b where r: "r = (a, b)" by (cases r)
      show ?thesis
        using fileh Some r s2 [of a b] by (simp add: parse_line_def s1_def Let_def)
    qed
  next
    case newf
    show ?thesis
    proof (cases "currentFile s")
      case None
      then show ?thesis using newf assms by (simp add: parse_line_def)
    next
      case (Some f)
      have "pinv (s\<lparr>file_store := (file_store s)[f := (file_store s ! f)\<lparr>f_isNewFile := True\<rparr>]\<rparr>)"
        using assms Some by (intro pinv_flag) (simp_all add: pinv_currentFile)
      then show ?thesis using newf Some by (simp add: parse_line_def)
    qed
  next
    case delf
    show ?thesis
    proof (cases "currentFile s")
      case None
      then show ?thesis using delf assms by (simp add: parse_line_def)
    next
      case (Some f)
      have "pinv (s\<lparr>file_store := (file_store s)[f := (file_store s ! f)\<lparr>f_isDeletedFile := True\<rparr>]\<rparr>)"
        using assms Some by (intro pinv_flag) (simp_all add: pinv_currentFile)
      then show ?thesis using delf Some by (simp add: parse_line_def)
    qed
  next
    case hunkh
    define s1 where "s1 = (case currentHunk s of
                 None \<Rightarrow> s
               | Some h \<Rightarrow> (case currentFile s of None \<Rightarrow> s | Some f \<Rightarrow> push_hunk f h s))"
    have "pinv s1"
      unfolding s1_def using assms by (rule pinv_header_part)
    show ?thesis
    proof (cases "match_hunk_header line")
      case None
      then show ?thesis
        using hunkh \<open>pinv s1\<close> by (simp add: parse_line_def s1_def Let_def)
    next
      case (Some r)
      obtain os oc ns nc where r: "r = (os, oc, ns, nc)" by (cases r)
      show ?thesis
        using hunkh Some r
          pinv_new_hunk [OF \<open>pinv s1\<close>, where os = os and ns = ns and line = line
             and oc = "case oc of None \<Rightarrow> 1 | Some n \<Rightarrow> n"
             and nc = "case nc of None \<Rightarrow> 1 | Some n \<Rightarrow> n"]
        by (simp add: parse_line_def s1_def Let_def)
    qed
  next
    case body
    show ?thesis
    proof (cases "currentHunk s")
      case None
      then show ?thesis using body assms by (simp add: parse_line_def)
    next
      case (Some h)
      have add: "pinv ((push_line h \<lparr>type = Added, content = drop 1 line, old_line = None,
                   new_line = Some (newLineNumber s), diff_line_in_patch = i + 1\<rparr> s)
                 \<lparr>oldLineNumber := oldLineNumber s, newLineNumber := newLineNumber s + 1\<rparr>)"
        using assms Some by (intro pinv_push_line) simp_all
      have rem: "pinv ((push_line h \<lparr>type = Removed, content = drop 1 line, old_line = Some (oldLineNumber s),
                   new_line = None, diff_line_in_patch = i + 1\<rparr> s)
                 \<lparr>oldLineNumber := oldLineNumber s + 1, newLineNumber := newLineNumber s\<rparr>)"
        using assms Some by (intro pinv_push_line) simp_all
      have ctx: "pinv ((push_line h \<lparr>type = Context, content = drop 1 line, old_line = Some (oldLineNumber s),
                   new_line = Some (newLineNumber s), diff_line_in_patch = i + 1\<rparr> s)
                 \<lparr>oldLineNumber := oldLineNumber s + 1, newLineNumber := newLineNumber s + 1\<rparr>)"
        using assms Some by (intro pinv_push_line) simp_all
      have old_pl: "oldLineNumber (push_line h l s) = oldLineNumber s" for l
        by (simp add: push_line_def)
      have new_pl: "newLineNumber (push_line h l s) = newLineNumber s" for l
        by (simp add: push_line_def)
      have add': "(push_line h l s)\<lparr>oldLineNumber := oldLineNumber s, newLineNumber := n\<rparr> =
                  (push_line h l s)\<lparr>newLineNumber := n\<rparr>" for l n
        by (simp add: push_line_def)
      have rem': "(push_line h l s)\<lparr>oldLineNumber := n, newLineNumber := newLineNumber s\<rparr> =
                  (push_line h l s)\<lparr>oldLineNumber := n\<rparr>" for l n
        by (simp add: push_line_def)
      consider (a) "startsWith line ''+''"
        | (r) "\<not> startsWith line ''+''" "startsWith line ''-''"
        | (c) "\<not> startsWith line ''+''" "\<not> startsWith line ''-''" "startsWith line '' ''"
        | (n) "\<not> startsWith line ''+''" "\<not> startsWith line ''-''" "\<not> startsWith line '' ''"
        by blast
      then show ?thesis
      proof cases
        case a
        then show ?thesis
          using body Some add unfolding add' by (simp add: parse_line_def)
      next
        case r
        then show ?thesis
          using body Some rem unfolding rem' by (simp add: parse_line_def)
      next
        case c
        then show ?thesis
          using body Some ctx by (simp add: parse_line_def)
      next
        case n
        then show ?thesis
          using body Some assms by (simp add: parse_line_def)
      qed
    qed
  qed
qed

lemma pinv_parse_lines: "pinv s \<Longrightarrow> pinv (parse_lines i ls s)"
  by (induction ls arbitrary: i s) (simp_all add: pinv_parse_line)

lemma pinv_finish: "pinv s \<Longrightarrow> pinv (finish s)"
  unfolding finish_def by (intro pinv_save_file pinv_header_part)

lemma pinv_final: "pinv (finish (parse_lines 0 (split_on (CHR 0x0A) diffContent) init_pstate))"
  by (intro pinv_finish pinv_parse_lines pinv_init)

lemma parsed_hunk_ok:
  assumes "parseDiffPatch diffContent path = Some fd" and "h \<in> set (hunks fd)"
  shows "hunk_ok h"
proof -
  define s where "s = finish (parse_lines 0 (split_on (CHR 0x0A) diffContent) init_pstate)"
  have inv: "pinv s"
    unfolding s_def by (rule pinv_final)
  from assms(1) obtain f where f: "files s path = Some f" and fd: "fd = deref_file s f"
    by (auto simp: parseDiffPatch_def s_def [symmetric] Let_def)
  from inv f have flt: "f < length (file_store s)"
    by (simp add: pinv_def refs_ok_def)
  from assms(2) fd obtain a where a: "a \<in> set (f_hunks (file_store s ! f))" and h: "h = hunk_store s ! a"
    by (auto simp: deref_file_def)
  from inv flt a have "a < length (hunk_store s)"
    by (simp add: pinv_def refs_ok_def list_all_length) (metis in_set_conv_nth)
  with inv h show ?thesis
    by (simp add: pinv_def list_all_length)
qed

section \<open>The scan of the resolver\<close>

subsection \<open>The scan as one loop over the lines of the file\<close>

lemma scan_lines_append:
  "scan_lines t (xs @ ys) b =
     (case scan_lines t xs b of Inl r \<Rightarrow> Inl r | Inr b' \<Rightarrow> scan_lines t ys b')"
  by (induction xs arbitrary: b) (auto split: sum.splits)

lemma scan_hunks_all_lines:
  "scan_hunks t hs b = scan_lines t (concat (map lines hs)) b"
  by (induction hs arbitrary: b) (auto simp: scan_lines_append split: sum.splits)

lemma resolver_accepted:
  assumes "fileDiffs filePath = Some fd" and "accepted codeContent"
  shows "findCorrectLineNumbers filePath codeContent hint fileDiffs =
           (case scan_lines (normalizeCode codeContent) (all_lines fd) (None, 0) of
              Inl r \<Rightarrow> r
            | Inr (bestMatch, bestMatchScore) \<Rightarrow>
                (case bestMatch of
                   None \<Rightarrow> fallback_at 0
                 | Some m \<Rightarrow> if bestMatchScore > 2 / 5 then m else fallback_at 0))"
  using assms
  by (simp add: findCorrectLineNumbers_def accepted_def all_lines_def scan_hunks_all_lines
           Let_def not_less)

subsection \<open>Exact matches\<close>

lemma scan_line_exact:
  assumes "type l \<noteq> Removed" and "normalizeCode (content l) = t" and "3 \<le> length t"
  shows "scan_line t l b = Inl (exact_at l)"
  using assms by (simp add: scan_line_def Let_def)

lemma scan_line_no_exact:
  assumes "\<not> (type l \<noteq> Removed \<and> normalizeCode (content l) = t)"
  shows "\<exists>b'. scan_line t l b = Inr b'"
  using assms by (auto simp: scan_line_def Let_def)

lemma scan_lines_exact:
  assumes "find (\<lambda>l. type l \<noteq> Removed \<and> normalizeCode (content l) = t) ls = Some l"
    and "3 \<le> length t"
  shows "scan_lines t ls b = Inl (exact_at l)"
  using assms
proof (induction ls arbitrary: b)
  case Nil
  then show ?case by simp
next
  case (Cons x xs)
  show ?case
  proof (cases "type x \<noteq> Removed \<and> normalizeCode (content x) = t")
    case True
    then have "x = l" using Cons.prems(1) by simp
    then show ?thesis using True Cons.prems(2) by (simp add: scan_line_exact)
  next
    case False
    then obtain b' where b': "scan_line t x b = Inr b'"
      using scan_line_no_exact by blast
    have "find (\<lambda>l. type l \<noteq> Removed \<and> normalizeCode (content l) = t) xs = Some l"
      using Cons.prems(1) False by simp
    then have "scan_lines t xs b' = Inl (exact_at l)"
      using Cons.IH Cons.prems(2) by blast
    then show ?thesis using b' by simp
  qed
qed

subsection \<open>Whatever is returned comes from a line that is not removed\<close>

lemma method1_cases: "method1 t lc l b = b \<or> fst (method1 t lc l b) = Some (fuzzy_at l)"
  by (simp add: method1_def Let_def)

lemma method2_cases: "method2 t lc l b = b \<or> fst (method2 t lc l b) = Some (fuzzy_at l)"
  by (simp add: method2_def Let_def)

lemma method3_cases: "method3 t lc l b = b \<or> fst (method3 t lc l b) = Some (fuzzy_at l)"
  by (simp add: method3_def Let_def)

lemma scan_line_Inl:
  "scan_line t l b = Inl r \<Longrightarrow> type l \<noteq> Removed \<and> r = exact_at l"
  by (auto simp: scan_line_def Let_def split: if_splits)

lemma scan_line_Inr:
  assumes "scan_line t l b = Inr b'"
  shows "b' = b \<or> (type l \<noteq> Removed \<and> fst b' = Some (fuzzy_at l))"
proof (cases "type l = Removed \<or> length (normalizeCode (content l)) < 3")
  case True
  then have "b' = b" using assms by (auto simp: scan_line_def Let_def split: if_splits)
  then show ?thesis by simp
next
  case False
  define lc where "lc = normalizeCode (content l)"
  have b': "b' = method3 t lc l (method2 t lc l (method1 t lc l b))"
    using assms False by (auto simp: scan_line_def Let_def lc_def split: if_splits)
  show ?thesis
    using False method1_cases [of t lc l b] method2_cases [of t lc l "method1 t lc l b"]
      method3_cases [of t lc l "method2 t lc l (method1 t lc l b)"]
    unfolding b' by auto
qed

lemma scan_lines_origin:
  "(scan_lines t ls b = Inl r \<longrightarrow> (\<exists>l \<in> set ls. type l \<noteq> Removed \<and> r = exact_at l)) \<and>
   (scan_lines t ls b = Inr b' \<longrightarrow>
      fst b' = fst b \<or> (\<exists>l \<in> set ls. type l \<noteq> Removed \<and> fst b' = Some (fuzzy_at l)))"
proof (induction ls arbitrary: b)
  case Nil
  show ?case by auto
next
  case (Cons x xs)
  show ?case
  proof (cases "scan_line t x b")
    case (Inl r')
    then show ?thesis using scan_line_Inl [OF Inl] by auto
  next
    case (Inr b1)
    from scan_line_Inr [OF Inr] Cons.IH [of b1] Inr show ?thesis
      by auto
  qed
qed

lemma resolver_rejected:
  assumes "fileDiffs filePath = None \<or> \<not> accepted codeContent"
  shows "findCorrectLineNumbers filePath codeContent hint fileDiffs = fallback_at (hint_or_zero hint)"
  using assms
  by (auto simp: findCorrectLineNumbers_def accepted_def Let_def not_le split: option.splits)

lemma resolver_origin:
  assumes "confidence (findCorrectLineNumbers filePath codeContent hint fileDiffs) \<noteq> Fallback"
  shows "\<exists>fd l. fileDiffs filePath = Some fd \<and> l \<in> set (all_lines fd) \<and> type l \<noteq> Removed \<and>
           (findCorrectLineNumbers filePath codeContent hint fileDiffs = exact_at l \<or>
            findCorrectLineNumbers filePath codeContent hint fileDiffs = fuzzy_at l)"
proof -
  have rej: "\<not> (fileDiffs filePath = None \<or> \<not> accepted codeContent)"
  proof
    assume "fileDiffs filePath = None \<or> \<not> accepted codeContent"
    then have "findCorrectLineNumbers filePath codeContent hint fileDiffs = fallback_at (hint_or_zero hint)"
      by (rule resolver_rejected)
    then show False using assms by (simp add: fallback_at_def)
  qed
  then have acc: "accepted codeContent" and "fileDiffs filePath \<noteq> None"
    by simp_all
  then obtain fd where fd: "fileDiffs filePath = Some fd" by auto
  have eq: "findCorrectLineNumbers filePath codeContent hint fileDiffs =
           (case scan_lines (normalizeCode codeContent) (all_lines fd) (None, 0) of
              Inl r \<Rightarrow> r
            | Inr (bestMatch, bestMatchScore) \<Rightarrow>
                (case bestMatch of
                   None \<Rightarrow> fallback_at 0
                 | Some m \<Rightarrow> if bestMatchScore > 2 / 5 then m else fallback_at 0))"
    using fd acc by (rule resolver_accepted)
  let ?t = "normalizeCode codeContent"
  show ?thesis
  proof (cases "scan_lines ?t (all_lines fd) (None, 0)")
    case (Inl r)
    then have "\<exists>l \<in> set (all_lines fd). type l \<noteq> Removed \<and> r = exact_at l"
      using scan_lines_origin [of ?t "all_lines fd" "(None, 0)" r] by simp
    then show ?thesis using fd eq Inl by auto
  next
    case (Inr b')
    obtain m s where b': "b' = (m, s)" by (cases b')
    show ?thesis
    proof (cases m)
      case None
      then show ?thesis using assms eq Inr b' by (simp add: fallback_at_def)
    next
      case (Some r)
      then have "\<exists>l \<in> set (all_lines fd). type l \<noteq> Removed \<and> m = Some (fuzzy_at l)"
        using scan_lines_origin [of ?t "all_lines fd" "(None, 0)" _ b'] Inr b' by auto
      then obtain l where l: "l \<in> set (all_lines fd)" "type l \<noteq> Removed" "r = fuzzy_at l"
        using Some by auto
      have "findCorrectLineNumbers filePath codeContent hint fileDiffs = r"
        using assms eq Inr b' Some by (auto simp: fallback_at_def split: if_splits)
      then show ?thesis using fd l by auto
    qed
  qed
qed

subsection \<open>Fuzzy matches\<close>

lemma startsWith_length:
  assumes "startsWith s t"
  shows "length t \<le> length s"
proof -
  have "length (take (length t) s) = length t"
    using assms by (simp add: startsWith_def)
  then show ?thesis by simp
qed

lemma includes_str_length: "includes_str s t \<Longrightarrow> length t \<le> length s"
proof (induction s)
  case Nil
  then show ?case by simp
next
  case (Cons c cs)
  then show ?case
    using startsWith_length [of "c # cs" t] by auto
qed

lemma upd_nonneg: "0 \<le> snd b \<Longrightarrow> 0 \<le> snd (upd s m b)"
  by (simp add: upd_def)

lemma upd_zero: "0 \<le> snd b \<Longrightarrow> upd 0 m b = b"
  by (simp add: upd_def)

lemma upd_upd: "upd s2 m (upd s1 m b) = upd (max s1 s2) m b"
  by (auto simp: upd_def max_def)

lemma method1_upd:
  "0 \<le> snd b \<Longrightarrow>
   method1 t lc l b =
     upd (if 15 \<le> length t \<and> includes_str lc t then of_nat (length t) / of_nat (length lc) else 0)
         (fuzzy_at l) b"
  by (simp add: method1_def upd_def Let_def)

lemma method2_upd:
  "0 \<le> snd b \<Longrightarrow>
   method2 t lc l b =
     upd (if 15 \<le> length lc \<and> includes_str t lc then of_nat (length lc) / of_nat (length t) else 0)
         (fuzzy_at l) b"
  by (simp add: method2_def upd_def Let_def)

lemma method3_upd:
  "0 \<le> snd b \<Longrightarrow>
   method3 t lc l b =
     upd (if overlap_score t lc > 3 / 5 then overlap_score t lc else 0) (fuzzy_at l) b"
  by (simp add: method3_def upd_def overlap_score_def Let_def)

lemma methods_upd:
  assumes "0 \<le> snd b"
  shows "method3 t (normalizeCode (content l)) l
           (method2 t (normalizeCode (content l)) l (method1 t (normalizeCode (content l)) l b)) =
         upd (fuzzy_score t l) (fuzzy_at l) b"
proof -
  define lc where "lc = normalizeCode (content l)"
  define a1 :: rat where
    "a1 = (if 15 \<le> length t \<and> includes_str lc t then of_nat (length t) / of_nat (length lc) else 0)"
  define a2 :: rat where
    "a2 = (if 15 \<le> length lc \<and> includes_str t lc then of_nat (length lc) / of_nat (length t) else 0)"
  define a3 :: rat where
    "a3 = (if overlap_score t lc > 3 / 5 then overlap_score t lc else 0)"
  have m1: "method1 t lc l b = upd a1 (fuzzy_at l) b"
    unfolding a1_def using assms by (rule method1_upd)
  have "0 \<le> snd (upd a1 (fuzzy_at l) b)"
    using assms by (rule upd_nonneg)
  then have m2: "method2 t lc l (upd a1 (fuzzy_at l) b) = upd a2 (fuzzy_at l) (upd a1 (fuzzy_at l) b)"
    unfolding a2_def by (rule method2_upd)
  have "0 \<le> snd (upd (max a1 a2) (fuzzy_at l) b)"
    using assms by (rule upd_nonneg)
  then have m3: "method3 t lc l (upd (max a1 a2) (fuzzy_at l) b) =
                 upd a3 (fuzzy_at l) (upd (max a1 a2) (fuzzy_at l) b)"
    unfolding a3_def by (rule method3_upd)
  have sc: "fuzzy_score t l = max (max a1 a2) a3"
    by (simp only: fuzzy_score_def containment_score_def a1_def a2_def a3_def lc_def)
  have "method3 t lc l (method2 t lc l (method1 t lc l b)) = upd (max (max a1 a2) a3) (fuzzy_at l) b"
    by (simp only: m1 m2 upd_upd m3)
  then show ?thesis
    by (simp only: sc lc_def)
qed

lemma short_line_score:
  assumes "length (normalizeCode (content l)) < 3"
  shows "fuzzy_score t l = 0"
proof -
  define lc where "lc = normalizeCode (content l)"
  have a: "(15 \<le> length t \<and> includes_str lc t) = False"
    using assms includes_str_length [of lc t] by (auto simp: lc_def)
  have b: "(15 \<le> length lc \<and> includes_str t lc) = False"
    using assms by (simp add: lc_def)
  have c: "(20 \<le> length t \<and> 20 \<le> length lc) = False"
    using assms by (simp add: lc_def)
  have "containment_score t lc = 0"
    unfolding containment_score_def a b by simp
  moreover have "overlap_score t lc = 0"
    unfolding overlap_score_def c by simp
  ultimately show ?thesis
    by (simp add: fuzzy_score_def lc_def)
qed

lemma scan_line_fuzzy:
  assumes "type l \<noteq> Removed" and "normalizeCode (content l) \<noteq> t" and "0 \<le> snd b"
  shows "scan_line t l b = Inr (upd (fuzzy_score t l) (fuzzy_at l) b)"
proof (cases "length (normalizeCode (content l)) < 3")
  case True
  then show ?thesis
    using assms by (simp add: scan_line_def Let_def short_line_score upd_zero)
next
  case False
  then show ?thesis
    using assms by (simp add: scan_line_def Let_def methods_upd)
qed

lemma scan_lines_fuzzy:
  assumes "\<forall>l \<in> set ls. type l \<noteq> Removed \<longrightarrow> normalizeCode (content l) \<noteq> t" and "0 \<le> snd b"
  shows "scan_lines t ls b =
           Inr (foldl (\<lambda>b l. upd (fuzzy_score t l) (fuzzy_at l) b) b (not_removed ls))"
  using assms
proof (induction ls arbitrary: b)
  case Nil
  show ?case by (simp add: not_removed_def)
next
  case (Cons x xs)
  show ?case
  proof (cases "type x = Removed")
    case True
    then have "scan_line t x b = Inr b"
      by (simp add: scan_line_def)
    then show ?thesis
      using Cons True by (simp add: not_removed_def)
  next
    case False
    then have x: "scan_line t x b = Inr (upd (fuzzy_score t x) (fuzzy_at x) b)"
      using Cons.prems by (intro scan_line_fuzzy) simp_all
    have "0 \<le> snd (upd (fuzzy_score t x) (fuzzy_at x) b)"
      using Cons.prems(2) by (rule upd_nonneg)
    then show ?thesis
      using Cons.IH [of "upd (fuzzy_score t x) (fuzzy_at x) b"] Cons.prems(1) x False
      by (simp add: not_removed_def)
  qed
qed

lemma ex_max_in_list:
  fixes f :: "'a \<Rightarrow> rat"
  assumes "xs \<noteq> []"
  shows "\<exists>z \<in> set xs. \<forall>y \<in> set xs. f y \<le> f z"
proof -
  have "Max (f ` set xs) \<in> f ` set xs"
    using assms by (intro Max_in) simp_all
  then obtain z where z: "z \<in> set xs" "f z = Max (f ` set xs)"
    by auto
  have "\<forall>y \<in> set xs. f y \<le> f z"
    unfolding z(2) by (simp add: Max_ge)
  with z(1) show ?thesis by blast
qed

lemma fold_upd_find:
  "foldl (\<lambda>b x. upd (f x) (g x) b) (m, s) xs =
     (case find (\<lambda>x. s < f x \<and> (\<forall>y \<in> set xs. f y \<le> f x)) xs of
        None \<Rightarrow> (m, s)
      | Some x \<Rightarrow> (Some (g x), f x))"
proof (induction xs arbitrary: m s)
  case Nil
  show ?case by simp
next
  case (Cons x xs)
  show ?case
  proof (cases "s < f x")
    case True
    note sx = True
    show ?thesis
    proof (cases "\<forall>y \<in> set xs. f y \<le> f x")
      case True
      then have "find (\<lambda>z. f x < f z \<and> (\<forall>y \<in> set xs. f y \<le> f z)) xs = None"
        by (auto simp: find_None_iff)
      then show ?thesis
        using sx True Cons.IH [of "Some (g x)" "f x"] by (simp add: upd_def)
    next
      case False
      then obtain w where w: "w \<in> set xs" "f x < f w" by (auto simp: not_le)
      then have "xs \<noteq> []" by auto
      then obtain z where z: "z \<in> set xs" "\<forall>y \<in> set xs. f y \<le> f z"
        using ex_max_in_list [of xs f] by blast
      then have "f x < f z" using w by force
      then have "find (\<lambda>z. f x < f z \<and> (\<forall>y \<in> set xs. f y \<le> f z)) xs \<noteq> None"
        using z by (auto simp: find_None_iff)
      then obtain v where v: "find (\<lambda>z. f x < f z \<and> (\<forall>y \<in> set xs. f y \<le> f z)) xs = Some v"
        by auto
      have "find (\<lambda>z. s < f z \<and> (\<forall>y \<in> set (x # xs). f y \<le> f z)) xs =
            find (\<lambda>z. f x < f z \<and> (\<forall>y \<in> set xs. f y \<le> f z)) xs"
      proof (rule find_cong [OF refl])
        fix z assume "z \<in> set xs"
        show "(s < f z \<and> (\<forall>y \<in> set (x # xs). f y \<le> f z)) =
              (f x < f z \<and> (\<forall>y \<in> set xs. f y \<le> f z))"
          using sx w by (auto simp: not_le)
      qed
      then show ?thesis
        using sx False v Cons.IH [of "Some (g x)" "f x"] by (auto simp: upd_def)
    qed
  next
    case False
    have "find (\<lambda>z. s < f z \<and> (\<forall>y \<in> set (x # xs). f y \<le> f z)) xs =
          find (\<lambda>z. s < f z \<and> (\<forall>y \<in> set xs. f y \<le> f z)) xs"
    proof (rule find_cong [OF refl])
      fix z assume "z \<in> set xs"
      show "(s < f z \<and> (\<forall>y \<in> set (x # xs). f y \<le> f z)) =
            (s < f z \<and> (\<forall>y \<in> set xs. f y \<le> f z))"
        using False by auto
    qed
    then show ?thesis
      using False Cons.IH [of m s] by (simp add: upd_def)
  qed
qed

lemma first_best_Some:
  assumes "xs \<noteq> []"
  shows "\<exists>l. first_best f xs = Some l \<and> l \<in> set xs \<and> (\<forall>y \<in> set xs. f y \<le> f l)"
proof -
  obtain z where z: "z \<in> set xs" "\<forall>y \<in> set xs. f y \<le> f z"
    using ex_max_in_list [OF assms, of f] by blast
  then have "first_best f xs \<noteq> None"
    by (auto simp: first_best_def find_None_iff)
  then obtain l where l: "first_best f xs = Some l" by auto
  then have "l \<in> set xs \<and> (\<forall>y \<in> set xs. f y \<le> f l)"
    unfolding first_best_def find_Some_iff by (metis nth_mem)
  with l show ?thesis by blast
qed

lemma first_best_Nil: "first_best f [] = None"
  by (simp add: first_best_def)

lemma find_positive:
  fixes f :: "'a \<Rightarrow> rat"
  assumes "\<forall>x \<in> set ys. \<forall>y \<in> set ys. Q x \<and> Q y \<longrightarrow> f x = f y"
  shows "find (\<lambda>x. 0 < f x \<and> Q x) ys =
           (case find Q ys of None \<Rightarrow> None | Some l \<Rightarrow> if 0 < f l then Some l else None)"
  using assms
proof (induction ys)
  case Nil
  show ?case by simp
next
  case (Cons a ys)
  have IH: "find (\<lambda>x. 0 < f x \<and> Q x) ys =
           (case find Q ys of None \<Rightarrow> None | Some l \<Rightarrow> if 0 < f l then Some l else None)"
    using Cons by simp
  show ?case
  proof (cases "Q a")
    case False
    then show ?thesis using IH by simp
  next
    case True
    show ?thesis
    proof (cases "0 < f a")
      case pos: True
      then show ?thesis using True by simp
    next
      case False
      have "\<forall>x \<in> set ys. Q x \<longrightarrow> f x = f a"
      proof (intro ballI impI)
        fix x assume "x \<in> set ys" and "Q x"
        then show "f x = f a"
          using Cons.prems [rule_format, of x a] True by simp
      qed
      then have "find (\<lambda>x. 0 < f x \<and> Q x) ys = None"
        using False by (auto simp: find_None_iff)
      then show ?thesis using True False by simp
    qed
  qed
qed

lemma best_as_first_best:
  fixes f :: "'a \<Rightarrow> rat"
  shows "(case foldl (\<lambda>b x. upd (f x) (g x) b) (None, 0) xs of
            (bestMatch, bestMatchScore) \<Rightarrow>
              (case bestMatch of
                 None \<Rightarrow> fallback_at 0
               | Some m \<Rightarrow> if bestMatchScore > 2 / 5 then m else fallback_at 0)) =
         (case first_best f xs of
            None \<Rightarrow> fallback_at 0
          | Some l \<Rightarrow> if f l > 2 / 5 then g l else fallback_at 0)"
proof -
  have same: "\<forall>x \<in> set xs. \<forall>y \<in> set xs.
          (\<forall>z \<in> set xs. f z \<le> f x) \<and> (\<forall>z \<in> set xs. f z \<le> f y) \<longrightarrow> f x = f y"
    by (auto intro: antisym)
  have "find (\<lambda>x. 0 < f x \<and> (\<forall>y \<in> set xs. f y \<le> f x)) xs =
        (case first_best f xs of None \<Rightarrow> None | Some l \<Rightarrow> if 0 < f l then Some l else None)"
    unfolding first_best_def using same by (rule find_positive)
  then show ?thesis
    unfolding fold_upd_find by (auto split: option.splits)
qed

section \<open>Properties of the resolver on the example hunks\<close>

lemma parse_start_diff: "parseDiffPatch start_diff ''app.js'' = Some start_file"
  by code_simp

lemma parse_imm_diff: "parseDiffPatch imm_diff ''src/Handler.java'' = Some imm_file"
  by code_simp

lemma parse_repeat_diff: "parseDiffPatch repeat_diff ''app.js'' = Some repeat_file"
  by code_simp

lemma resolver_first_match:
  assumes "fileDiffs filePath = Some fd" and "accepted codeContent"
    and "first_match codeContent fd = Some l"
  shows "findCorrectLineNumbers filePath codeContent hint fileDiffs = exact_at l"
proof -
  have len: "3 \<le> length (normalizeCode codeContent)"
    using assms(2) by (simp add: accepted_def)
  have "scan_lines (normalizeCode codeContent) (all_lines fd) (None, 0) = Inl (exact_at l)"
    using assms(3) len unfolding first_match_def by (rule scan_lines_exact)
  moreover have "findCorrectLineNumbers filePath codeContent hint fileDiffs =
           (case scan_lines (normalizeCode codeContent) (all_lines fd) (None, 0) of
              Inl r \<Rightarrow> r
            | Inr (bestMatch, bestMatchScore) \<Rightarrow>
                (case bestMatch of
                   None \<Rightarrow> fallback_at 0
                 | Some m \<Rightarrow> if bestMatchScore > 2 / 5 then m else fallback_at 0))"
    using assms(1,2) by (rule resolver_accepted)
  ultimately show ?thesis
    by simp
qed

lemma count_type_take_map:
  "count_type t (take i ls) = int (length (filter (\<lambda>x. x = t) (take i (map type ls))))"
proof -
  have "filter (\<lambda>x. x = t) (map type (take i ls)) = map type (filter (\<lambda>l. type l = t) (take i ls))"
    by (simp add: filter_map comp_def)
  then show ?thesis
    by (simp add: count_type_def take_map)
qed

lemma parsed_added_line:
  assumes "parseDiffPatch diffContent path = Some fd" and "h \<in> set (hunks fd)"
    and "i < length (lines h)" and "type (lines h ! i) = Added"
  shows "exact_at (lines h ! i) =
           \<lparr>pos_old_line = None,
            pos_new_line = Some (newStart h +
               int (length (filter (\<lambda>x. x = Added) (take i (map type (lines h))))) +
               int (length (filter (\<lambda>x. x = Context) (take i (map type (lines h)))))),
            confidence = Exact\<rparr>"
proof -
  have "numbered (oldStart h) (newStart h) (lines h)"
    using parsed_hunk_ok [OF assms(1,2)] by (simp add: hunk_ok_def)
  from numbered_nth [OF this assms(3)] assms(4) show ?thesis
    by (simp add: exact_at_def count_type_take_map)
qed

text \<open>
  Claim C7, as amended. Take any patch text and a hunk that the parser returns for it. If
  the header starts both counters at 1699 and the lines are three context lines, one removed
  line, one added line and two context lines, then a snippet that passes the rejection
  filters and whose first match in the file is the added line resolves to new line 1702, no
  old line, confidence Exact. If the header starts both counters at 10 and the lines are one
  context line, one added line and two context lines, then the snippet
  \<open>console.log("start");\<close>, when its first match in the file is the added line, resolves to
  new line 11, no old line, confidence Exact. Both hold for every hint.
\<close>

theorem resolver_examples:
  "(parseDiffPatch diffContent filePath = Some fd \<and> h \<in> set (hunks fd) \<and>
    oldStart h = 1699 \<and> newStart h = 1699 \<and>
    map type (lines h) = [Context, Context, Context, Removed, Added, Context, Context] \<and>
    accepted codeContent \<and> first_match codeContent fd = Some (lines h ! 4) \<longrightarrow>
      findCorrectLineNumbers filePath codeContent hint (parseDiffPatch diffContent) =
        \<lparr>pos_old_line = None, pos_new_line = Some 1702, confidence = Exact\<rparr>) \<and>
   (parseDiffPatch diffContent' filePath' = Some fd' \<and> h' \<in> set (hunks fd') \<and>
    oldStart h' = 10 \<and> newStart h' = 10 \<and>
    map type (lines h') = [Context, Added, Context, Context] \<and>
    first_match start_snippet fd' = Some (lines h' ! 1) \<longrightarrow>
      findCorrectLineNumbers filePath' start_snippet hint' (parseDiffPatch diffContent') =
        \<lparr>pos_old_line = None, pos_new_line = Some 11, confidence = Exact\<rparr>)"
proof (intro conjI impI)
  assume a: "parseDiffPatch diffContent filePath = Some fd \<and> h \<in> set (hunks fd) \<and>
    oldStart h = 1699 \<and> newStart h = 1699 \<and>
    map type (lines h) = [Context, Context, Context, Removed, Added, Context, Context] \<and>
    accepted codeContent \<and> first_match codeContent fd = Some (lines h ! 4)"
  then have m: "map type (lines h) = [Context, Context, Context, Removed, Added, Context, Context]"
    by blast
  have len: "length (lines h) = 7"
    using arg_cong [OF m, of length] by simp
  have ty: "type (lines h ! 4) = Added"
    using arg_cong [OF m, of "\<lambda>ts. ts ! 4"] len by simp
  have "exact_at (lines h ! 4) =
          \<lparr>pos_old_line = None, pos_new_line = Some 1702, confidence = Exact\<rparr>"
    using parsed_added_line [of diffContent filePath fd h 4] a len ty
    by (simp add: m)
  moreover have "findCorrectLineNumbers filePath codeContent hint (parseDiffPatch diffContent) =
      exact_at (lines h ! 4)"
    using a by (intro resolver_first_match) blast+
  ultimately show "findCorrectLineNumbers filePath codeContent hint (parseDiffPatch diffContent) =
        \<lparr>pos_old_line = None, pos_new_line = Some 1702, confidence = Exact\<rparr>"
    by simp
next
  assume a: "parseDiffPatch diffContent' filePath' = Some fd' \<and> h' \<in> set (hunks fd') \<and>
    oldStart h' = 10 \<and> newStart h' = 10 \<and>
    map type (lines h') = [Context, Added, Context, Context] \<and>
    first_match start_snippet fd' = Some (lines h' ! 1)"
  then have m: "map type (lines h') = [Context, Added, Context, Context]"
    by blast
  have len: "length (lines h') = 4"
    using arg_cong [OF m, of length] by simp
  have ty: "type (lines h' ! 1) = Added"
    using arg_cong [OF m, of "\<lambda>ts. ts ! 1"] len by simp
  have acc: "accepted start_snippet"
    by code_simp
  have "exact_at (lines h' ! 1) =
          \<lparr>pos_old_line = None, pos_new_line = Some 11, confidence = Exact\<rparr>"
    using parsed_added_line [of diffContent' filePath' fd' h' 1] a len ty
    by (simp add: m)
  moreover have "findCorrectLineNumbers filePath' start_snippet hint' (parseDiffPatch diffContent') =
      exact_at (lines h' ! 1)"
    using a acc by (intro resolver_first_match) blast+
  ultimately show "findCorrectLineNumbers filePath' start_snippet hint' (parseDiffPatch diffContent') =
        \<lparr>pos_old_line = None, pos_new_line = Some 11, confidence = Exact\<rparr>"
    by simp
qed

theorem resolver_examples_witness:
  "parseDiffPatch imm_diff ''src/Handler.java'' = Some imm_file \<and>
   hd (hunks imm_file) \<in> set (hunks imm_file) \<and>
   oldStart (hd (hunks imm_file)) = 1699 \<and> newStart (hd (hunks imm_file)) = 1699 \<and>
   map type (lines (hd (hunks imm_file))) =
     [Context, Context, Context, Removed, Added, Context, Context] \<and>
   accepted ''context.getImm(), null);'' \<and>
   first_match ''context.getImm(), null);'' imm_file = Some (lines (hd (hunks imm_file)) ! 4) \<and>
   findCorrectLineNumbers ''src/Handler.java'' ''context.getImm(), null);'' (Some 9)
       (parseDiffPatch imm_diff) =
     \<lparr>pos_old_line = None, pos_new_line = Some 1702, confidence = Exact\<rparr> \<and>
   parseDiffPatch start_diff ''app.js'' = Some start_file \<and>
   start_hunk \<in> set (hunks start_file) \<and>
   oldStart start_hunk = 10 \<and> newStart start_hunk = 10 \<and>
   map type (lines start_hunk) = [Context, Added, Context, Context] \<and>
   first_match start_snippet start_file = Some (lines start_hunk ! 1) \<and>
   findCorrectLineNumbers ''app.js'' start_snippet (Some 7) (parseDiffPatch start_diff) =
     \<lparr>pos_old_line = None, pos_new_line = Some 11, confidence = Exact\<rparr>"
proof -
  have p1: "parseDiffPatch imm_diff ''src/Handler.java'' = Some imm_file"
    by (rule parse_imm_diff)
  have h1: "hd (hunks imm_file) \<in> set (hunks imm_file)"
    by (simp add: imm_file_def)
  have s1: "oldStart (hd (hunks imm_file)) = 1699" "newStart (hd (hunks imm_file)) = 1699"
    by (simp_all add: imm_file_def)
  have t1: "map type (lines (hd (hunks imm_file))) =
     [Context, Context, Context, Removed, Added, Context, Context]"
    by (simp add: imm_file_def imm_added_def)
  have a1: "accepted ''context.getImm(), null);''"
    by code_simp
  have f1: "first_match ''context.getImm(), null);'' imm_file = Some (lines (hd (hunks imm_file)) ! 4)"
    by code_simp
  have p2: "parseDiffPatch start_diff ''app.js'' = Some start_file"
    by (rule parse_start_diff)
  have h2: "start_hunk \<in> set (hunks start_file)"
    by (simp add: start_file_def)
  have s2: "oldStart start_hunk = 10" "newStart start_hunk = 10"
    by (simp_all add: start_hunk_def)
  have t2: "map type (lines start_hunk) = [Context, Added, Context, Context]"
    by (simp add: start_hunk_def)
  have f2: "first_match start_snippet start_file = Some (lines start_hunk ! 1)"
    by code_simp
  show ?thesis
    using resolver_examples [of imm_diff "''src/Handler.java''" imm_file "hd (hunks imm_file)"
        "''context.getImm(), null);''" "Some 9" start_diff "''app.js''" start_file start_hunk "Some 7"]
      p1 h1 s1 t1 a1 f1 p2 h2 s2 t2 f2
    by simp
qed

text \<open>
  The claim as stated fails when an earlier line of the file reads like the added line: in
  \<open>repeat_diff\<close> the hunk \<open>@@ -10,3 +10,4 @@\<close> has \<open>console.log("start");\<close> as its only
  addition, after one context line with the same text, and the resolver returns that context
  line, new line 10 and old line 10.
\<close>

theorem example_resolves_to_context_line:
  "parseDiffPatch repeat_diff ''app.js'' = Some repeat_file \<and>
   hunks repeat_file = [repeat_hunk] \<and>
   oldStart repeat_hunk = 10 \<and> newStart repeat_hunk = 10 \<and>
   map type (lines repeat_hunk) = [Context, Added, Context, Context] \<and>
   content (lines repeat_hunk ! 1) = start_snippet \<and>
   findCorrectLineNumbers ''app.js'' start_snippet None (parseDiffPatch repeat_diff) =
     \<lparr>pos_old_line = Some 10, pos_new_line = Some 10, confidence = Exact\<rparr>"
proof -
  have "findCorrectLineNumbers ''app.js'' start_snippet None (parseDiffPatch repeat_diff) =
     \<lparr>pos_old_line = Some 10, pos_new_line = Some 10, confidence = Exact\<rparr>"
    by code_simp
  then show ?thesis
    using parse_repeat_diff by (simp add: repeat_file_def repeat_hunk_def)
qed

text \<open>
  Claim C1. The claim says that no Unresolved outcome carries the hint as its line number.
  On the four early rejections the resolver returns \<open>aiProvidedNewLine || 0\<close>: for the
  snippet \<open>}\<close> and the hint 42 the returned new line is 42. Only the return after the scan,
  whose comment reads "DON'T use AI's line", gives 0.
\<close>

theorem rejected_snippet_returns_hint:
  "findCorrectLineNumbers ''app.js'' ''}'' (Some 42) (parseDiffPatch start_diff) =
     \<lparr>pos_old_line = None, pos_new_line = Some 42, confidence = Fallback\<rparr>"
  by code_simp

section \<open>Properties of the parser\<close>

lemma numbered_member:
  assumes "numbered a b ls" and "l \<in> set ls"
  shows "(type l = Added \<longrightarrow> old_line l = None \<and> new_line l \<noteq> None) \<and>
         (type l = Removed \<longrightarrow> new_line l = None \<and> old_line l \<noteq> None) \<and>
         (type l = Context \<longrightarrow> old_line l \<noteq> None \<and> new_line l \<noteq> None)"
proof -
  from assms(2) obtain i where i: "i < length ls" and l: "l = ls ! i"
    by (auto simp: in_set_conv_nth)
  show ?thesis
    using numbered_nth [OF assms(1) i] l by (cases "type l") simp_all
qed

text \<open>
  Claim C3. For every input text, every line of every hunk of every file that the parser
  returns has: kind Added, then no old line and a new line; kind Removed, then no new line
  and an old line; kind Context, then both. Where the numbers of the hunk stay in the range
  on which the doubles of the code are exact (\<open>safe_numbers\<close>), they are those of two
  counters that start at \<open>oldStart\<close> and \<open>newStart\<close> of the hunk and are stepped by each line
  according to its kind (\<open>numbered\<close>).
\<close>

theorem parsed_lines_numbered:
  assumes "parseDiffPatch diffContent path = Some fd" and "h \<in> set (hunks fd)"
    and "l \<in> set (lines h)"
  shows "(type l = Added \<longrightarrow> old_line l = None \<and> new_line l \<noteq> None) \<and>
         (type l = Removed \<longrightarrow> new_line l = None \<and> old_line l \<noteq> None) \<and>
         (type l = Context \<longrightarrow> old_line l \<noteq> None \<and> new_line l \<noteq> None) \<and>
         (safe_numbers h \<longrightarrow> numbered (oldStart h) (newStart h) (lines h))"
proof -
  have "numbered (oldStart h) (newStart h) (lines h)"
    using parsed_hunk_ok [OF assms(1,2)] by (simp add: hunk_ok_def)
  then show ?thesis
    using numbered_member [OF _ assms(3)] by blast
qed

theorem parsed_lines_numbered_witness:
  "parseDiffPatch start_diff ''app.js'' = Some start_file \<and>
   start_hunk \<in> set (hunks start_file) \<and>
   lines start_hunk ! 1 \<in> set (lines start_hunk) \<and>
   type (lines start_hunk ! 1) = Added \<and>
   old_line (lines start_hunk ! 1) = None \<and>
   new_line (lines start_hunk ! 1) \<noteq> None \<and>
   safe_numbers start_hunk \<and>
   numbered (oldStart start_hunk) (newStart start_hunk) (lines start_hunk)"
proof -
  have p: "parseDiffPatch start_diff ''app.js'' = Some start_file"
    by (rule parse_start_diff)
  have h: "start_hunk \<in> set (hunks start_file)"
    by (simp add: start_file_def)
  have l: "lines start_hunk ! 1 \<in> set (lines start_hunk)"
    by (simp add: start_hunk_def)
  have t: "type (lines start_hunk ! 1) = Added"
    by (simp add: start_hunk_def)
  have b: "safe_numbers start_hunk"
    by (simp add: safe_numbers_def MAX_SAFE_INTEGER_def start_hunk_def)
  show ?thesis
    using parsed_lines_numbered [OF p h l] p h l t b by simp
qed

text \<open>
  Claim C6, as amended. The claim says that on every context line of a hunk the new number
  minus the old number is \<open>new_start - old_start\<close>. An added line steps only the new counter
  and a removed line only the old one, so the difference moves with them: on the context
  line at index \<open>i\<close> of a parsed hunk whose numbers stay in the range on which the doubles
  of the code are exact (\<open>safe_numbers\<close>), it is \<open>new_start - old_start\<close> plus the number of
  added lines before it minus the number of removed lines before it.
\<close>

theorem context_offset:
  assumes "parseDiffPatch diffContent path = Some fd" and "h \<in> set (hunks fd)"
    and "safe_numbers h" and "i < length (lines h)" and "type (lines h ! i) = Context"
  shows "\<exists>ol nl. old_line (lines h ! i) = Some ol \<and> new_line (lines h ! i) = Some nl \<and>
           nl - ol = newStart h - oldStart h +
                     count_type Added (take i (lines h)) - count_type Removed (take i (lines h))"
proof -
  have "numbered (oldStart h) (newStart h) (lines h)"
    using parsed_hunk_ok [OF assms(1,2)] by (simp add: hunk_ok_def)
  from numbered_nth [OF this assms(4)] assms(5) show ?thesis
    by simp
qed

theorem context_offset_witness:
  "parseDiffPatch start_diff ''app.js'' = Some start_file \<and>
   start_hunk \<in> set (hunks start_file) \<and>
   safe_numbers start_hunk \<and>
   2 < length (lines start_hunk) \<and>
   type (lines start_hunk ! 2) = Context \<and>
   (\<exists>ol nl. old_line (lines start_hunk ! 2) = Some ol \<and> new_line (lines start_hunk ! 2) = Some nl \<and>
      nl - ol = newStart start_hunk - oldStart start_hunk +
                count_type Added (take 2 (lines start_hunk)) -
                count_type Removed (take 2 (lines start_hunk)))"
proof -
  have p: "parseDiffPatch start_diff ''app.js'' = Some start_file"
    by (rule parse_start_diff)
  have h: "start_hunk \<in> set (hunks start_file)"
    by (simp add: start_file_def)
  have i: "2 < length (lines start_hunk)"
    by (simp add: start_hunk_def)
  have t: "type (lines start_hunk ! 2) = Context"
    by (simp add: start_hunk_def)
  have b: "safe_numbers start_hunk"
    by (simp add: safe_numbers_def MAX_SAFE_INTEGER_def start_hunk_def)
  show ?thesis
    using context_offset [OF p h b i t] p h b i t by simp
qed

text \<open>
  The claim as stated fails on the hunk \<open>@@ -10,3 +10,4 @@\<close> of \<open>start_diff\<close>, a valid unified
  diff: the context line after the added line has old number 11 and new number 12, and
  \<open>new_start - old_start\<close> is 0.
\<close>

theorem context_offset_not_constant:
  "parseDiffPatch start_diff ''app.js'' = Some start_file \<and>
   start_hunk \<in> set (hunks start_file) \<and>
   \<not> constant_offset start_hunk"
proof -
  have "\<not> constant_offset start_hunk"
    by (simp add: constant_offset_def start_hunk_def)
  then show ?thesis
    by (simp add: parse_start_diff start_file_def)
qed

section \<open>Properties of the resolver\<close>

lemma parse_overlap_diff: "parseDiffPatch overlap_diff ''t.js'' = Some overlap_file"
  by code_simp

text \<open>
  Claim C2, as amended. When the file is in the model, the snippet passes the rejection
  filters (it is not blank, its normal form has at least 5 characters and is not one of the
  generic strings) and the normal form equals that of some line of the file that is not
  Removed, the resolver returns confidence Exact with the old and new line of the first
  such line, hunks and lines taken in order. For every input, a result whose confidence
  is not Fallback carries the old and new line of a line of the file that is not Removed.
\<close>

theorem exact_match_returned:
  "(fileDiffs filePath = Some fd \<and> accepted codeContent \<and> l0 \<in> set (all_lines fd) \<and>
    type l0 \<noteq> Removed \<and> normalizeCode (content l0) = normalizeCode codeContent \<longrightarrow>
      (\<exists>l. find (\<lambda>l. type l \<noteq> Removed \<and> normalizeCode (content l) = normalizeCode codeContent)
              (all_lines fd) = Some l \<and>
           findCorrectLineNumbers filePath codeContent hint fileDiffs = exact_at l)) \<and>
   (confidence (findCorrectLineNumbers filePath codeContent hint fileDiffs) \<noteq> Fallback \<longrightarrow>
      (\<exists>fd l. fileDiffs filePath = Some fd \<and> l \<in> set (all_lines fd) \<and> type l \<noteq> Removed \<and>
         (findCorrectLineNumbers filePath codeContent hint fileDiffs = exact_at l \<or>
          findCorrectLineNumbers filePath codeContent hint fileDiffs = fuzzy_at l)))"
proof (intro conjI impI)
  let ?P = "\<lambda>l. type l \<noteq> Removed \<and> normalizeCode (content l) = normalizeCode codeContent"
  assume a: "fileDiffs filePath = Some fd \<and> accepted codeContent \<and> l0 \<in> set (all_lines fd) \<and>
    type l0 \<noteq> Removed \<and> normalizeCode (content l0) = normalizeCode codeContent"
  then have "find ?P (all_lines fd) \<noteq> None"
    by (auto simp: find_None_iff)
  then obtain l where l: "find ?P (all_lines fd) = Some l"
    by auto
  have len: "3 \<le> length (normalizeCode codeContent)"
    using a by (simp add: accepted_def)
  have "scan_lines (normalizeCode codeContent) (all_lines fd) (None, 0) = Inl (exact_at l)"
    using l len by (rule scan_lines_exact)
  moreover have "findCorrectLineNumbers filePath codeContent hint fileDiffs =
           (case scan_lines (normalizeCode codeContent) (all_lines fd) (None, 0) of
              Inl r \<Rightarrow> r
            | Inr (bestMatch, bestMatchScore) \<Rightarrow>
                (case bestMatch of
                   None \<Rightarrow> fallback_at 0
                 | Some m \<Rightarrow> if bestMatchScore > 2 / 5 then m else fallback_at 0))"
    using a by (intro resolver_accepted) simp_all
  ultimately have "findCorrectLineNumbers filePath codeContent hint fileDiffs = exact_at l"
    by simp
  with l show "\<exists>l. find ?P (all_lines fd) = Some l \<and>
           findCorrectLineNumbers filePath codeContent hint fileDiffs = exact_at l"
    by blast
next
  assume "confidence (findCorrectLineNumbers filePath codeContent hint fileDiffs) \<noteq> Fallback"
  then show "\<exists>fd l. fileDiffs filePath = Some fd \<and> l \<in> set (all_lines fd) \<and> type l \<noteq> Removed \<and>
         (findCorrectLineNumbers filePath codeContent hint fileDiffs = exact_at l \<or>
          findCorrectLineNumbers filePath codeContent hint fileDiffs = fuzzy_at l)"
    by (rule resolver_origin)
qed

theorem exact_match_returned_witness:
  "parseDiffPatch start_diff ''app.js'' = Some start_file \<and>
   accepted start_snippet \<and>
   lines start_hunk ! 1 \<in> set (all_lines start_file) \<and>
   type (lines start_hunk ! 1) \<noteq> Removed \<and>
   normalizeCode (content (lines start_hunk ! 1)) = normalizeCode start_snippet \<and>
   (\<exists>l. find (\<lambda>l. type l \<noteq> Removed \<and> normalizeCode (content l) = normalizeCode start_snippet)
           (all_lines start_file) = Some l \<and>
        findCorrectLineNumbers ''app.js'' start_snippet None (parseDiffPatch start_diff) = exact_at l) \<and>
   confidence (findCorrectLineNumbers ''app.js'' start_snippet None (parseDiffPatch start_diff)) \<noteq> Fallback \<and>
   (\<exists>fd l. parseDiffPatch start_diff ''app.js'' = Some fd \<and> l \<in> set (all_lines fd) \<and>
      type l \<noteq> Removed \<and>
      (findCorrectLineNumbers ''app.js'' start_snippet None (parseDiffPatch start_diff) = exact_at l \<or>
       findCorrectLineNumbers ''app.js'' start_snippet None (parseDiffPatch start_diff) = fuzzy_at l))"
proof -
  have p: "parseDiffPatch start_diff ''app.js'' = Some start_file"
    by (rule parse_start_diff)
  have acc: "accepted start_snippet"
    by code_simp
  have mem: "lines start_hunk ! 1 \<in> set (all_lines start_file)"
    by (simp add: all_lines_def start_file_def start_hunk_def)
  have ty: "type (lines start_hunk ! 1) \<noteq> Removed"
    by (simp add: start_hunk_def)
  have eq: "normalizeCode (content (lines start_hunk ! 1)) = normalizeCode start_snippet"
    by code_simp
  have conf: "confidence (findCorrectLineNumbers ''app.js'' start_snippet None (parseDiffPatch start_diff)) \<noteq> Fallback"
    by code_simp
  show ?thesis
    using exact_match_returned [of "parseDiffPatch start_diff" "''app.js''" start_file start_snippet
        "lines start_hunk ! 1" None]
      p acc mem ty eq conf
    by simp
qed

text \<open>
  The claim as stated fails for snippets that the filters reject: the last context line of
  \<open>start_diff\<close> is \<open>}\<close>, the snippet \<open>}\<close> has the same normal form, and the resolver returns
  Fallback.
\<close>

theorem exact_match_rejected_snippet:
  "parseDiffPatch start_diff ''app.js'' = Some start_file \<and>
   lines start_hunk ! 3 \<in> set (all_lines start_file) \<and>
   type (lines start_hunk ! 3) \<noteq> Removed \<and>
   normalizeCode (content (lines start_hunk ! 3)) = normalizeCode ''}'' \<and>
   confidence (findCorrectLineNumbers ''app.js'' ''}'' None (parseDiffPatch start_diff)) = Fallback"
proof -
  have "lines start_hunk ! 3 \<in> set (all_lines start_file)"
    by (simp add: all_lines_def start_file_def start_hunk_def)
  moreover have "type (lines start_hunk ! 3) \<noteq> Removed"
    by (simp add: start_hunk_def)
  moreover have "normalizeCode (content (lines start_hunk ! 3)) = normalizeCode ''}''"
    by code_simp
  moreover have "confidence (findCorrectLineNumbers ''app.js'' ''}'' None (parseDiffPatch start_diff)) = Fallback"
    by code_simp
  ultimately show ?thesis
    using parse_start_diff by simp
qed

text \<open>
  Claim C4, as amended. When no exact match exists and the strings have fewer than \<open>2^26\<close>
  characters (\<open>short_strings\<close>), the score of a line that is not Removed
  is the larger of the containment score (contained string of at least 15 characters) and
  the overlap score (both strings of at least 20 characters), where the overlap score
  counts only when it exceeds 0.6 (\<open>fuzzy_score\<close>). The resolver returns the first line
  with the highest score, as Fuzzy, when that score exceeds 0.4, and Fallback with line 0
  otherwise; so the result is Fuzzy exactly when some such line scores above 0.4.
\<close>

theorem fuzzy_match_best:
  assumes "fileDiffs filePath = Some fd" and "accepted codeContent"
    and "\<forall>l \<in> set (all_lines fd).
           type l \<noteq> Removed \<longrightarrow> normalizeCode (content l) \<noteq> normalizeCode codeContent"
    and "short_strings codeContent fd"
  shows "findCorrectLineNumbers filePath codeContent hint fileDiffs =
           (case first_best (fuzzy_score (normalizeCode codeContent)) (not_removed (all_lines fd)) of
              None \<Rightarrow> fallback_at 0
            | Some l \<Rightarrow>
                if fuzzy_score (normalizeCode codeContent) l > 2 / 5 then fuzzy_at l
                else fallback_at 0) \<and>
         ((confidence (findCorrectLineNumbers filePath codeContent hint fileDiffs) = Fuzzy) =
          (\<exists>l \<in> set (not_removed (all_lines fd)). fuzzy_score (normalizeCode codeContent) l > 2 / 5))"
proof -
  define t where "t = normalizeCode codeContent"
  define xs where "xs = not_removed (all_lines fd)"
  let ?r = "findCorrectLineNumbers filePath codeContent hint fileDiffs"
  have scan: "scan_lines t (all_lines fd) (None, 0) =
          Inr (foldl (\<lambda>b l. upd (fuzzy_score t l) (fuzzy_at l) b) (None, 0) xs)"
    unfolding xs_def using assms(3) by (intro scan_lines_fuzzy) (simp_all add: t_def)
  have "?r = (case scan_lines t (all_lines fd) (None, 0) of
              Inl r \<Rightarrow> r
            | Inr (bestMatch, bestMatchScore) \<Rightarrow>
                (case bestMatch of
                   None \<Rightarrow> fallback_at 0
                 | Some m \<Rightarrow> if bestMatchScore > 2 / 5 then m else fallback_at 0))"
    unfolding t_def using assms(1,2) by (rule resolver_accepted)
  then have "?r = (case foldl (\<lambda>b l. upd (fuzzy_score t l) (fuzzy_at l) b) (None, 0) xs of
            (bestMatch, bestMatchScore) \<Rightarrow>
              (case bestMatch of
                 None \<Rightarrow> fallback_at 0
               | Some m \<Rightarrow> if bestMatchScore > 2 / 5 then m else fallback_at 0))"
    unfolding scan by simp
  then have eq: "?r = (case first_best (fuzzy_score t) xs of
              None \<Rightarrow> fallback_at 0
            | Some l \<Rightarrow> if fuzzy_score t l > 2 / 5 then fuzzy_at l else fallback_at 0)"
    unfolding best_as_first_best .
  have iff: "(confidence ?r = Fuzzy) = (\<exists>l \<in> set xs. fuzzy_score t l > 2 / 5)"
  proof (cases "xs = []")
    case True
    then show ?thesis
      unfolding eq by (simp add: first_best_Nil fallback_at_def)
  next
    case False
    then obtain l where l: "first_best (fuzzy_score t) xs = Some l" "l \<in> set xs"
        "\<forall>y \<in> set xs. fuzzy_score t y \<le> fuzzy_score t l"
      using first_best_Some [of xs "fuzzy_score t"] by blast
    show ?thesis
    proof (cases "fuzzy_score t l > 2 / 5")
      case True
      then show ?thesis
        unfolding eq using l by (auto simp: fuzzy_at_def)
    next
      case False
      then have "\<forall>y \<in> set xs. \<not> fuzzy_score t y > 2 / 5"
        using l(3) by (meson le_less_trans not_le)
      then show ?thesis
        unfolding eq using l False by (auto simp: fallback_at_def)
    qed
  qed
  from eq iff show ?thesis
    unfolding t_def xs_def by simp
qed

theorem fuzzy_match_best_witness:
  "parseDiffPatch imm_diff ''src/Handler.java'' = Some imm_file \<and>
   accepted imm_partial_snippet \<and>
   short_strings imm_partial_snippet imm_file \<and>
   fuzzy_score (normalizeCode imm_partial_snippet) imm_added = 21 / 23 \<and>
   findCorrectLineNumbers ''src/Handler.java'' imm_partial_snippet None (parseDiffPatch imm_diff) =
     \<lparr>pos_old_line = None, pos_new_line = Some 1702, confidence = Fuzzy\<rparr> \<and>
   (\<exists>l. first_best (fuzzy_score (normalizeCode imm_partial_snippet))
           (not_removed (all_lines imm_file)) = Some l \<and> fuzzy_at l = fuzzy_at imm_added) \<and>
   (\<exists>l \<in> set (not_removed (all_lines imm_file)).
      fuzzy_score (normalizeCode imm_partial_snippet) l > 2 / 5)"
proof -
  have p: "parseDiffPatch imm_diff ''src/Handler.java'' = Some imm_file"
    by (rule parse_imm_diff)
  have acc: "accepted imm_partial_snippet"
    by code_simp
  have no_exact: "\<forall>l \<in> set (all_lines imm_file).
           type l \<noteq> Removed \<longrightarrow> normalizeCode (content l) \<noteq> normalizeCode imm_partial_snippet"
    by code_simp
  have "length (normalizeCode imm_partial_snippet) < 100 \<and>
        list_all (\<lambda>l. length (normalizeCode (content l)) < 100) (all_lines imm_file)"
    by code_simp
  moreover have "(100 :: nat) < 2 ^ 26"
    by simp
  ultimately have sh: "short_strings imm_partial_snippet imm_file"
    unfolding short_strings_def list_all_iff by (meson less_trans)
  have sc: "fuzzy_score (normalizeCode imm_partial_snippet) imm_added = 21 / 23"
    by code_simp
  have r: "findCorrectLineNumbers ''src/Handler.java'' imm_partial_snippet None (parseDiffPatch imm_diff) =
     \<lparr>pos_old_line = None, pos_new_line = Some 1702, confidence = Fuzzy\<rparr>"
    by code_simp
  note best = fuzzy_match_best [of "parseDiffPatch imm_diff" "''src/Handler.java''" imm_file
      imm_partial_snippet None, OF p acc no_exact sh]
  have ex: "\<exists>l \<in> set (not_removed (all_lines imm_file)).
      fuzzy_score (normalizeCode imm_partial_snippet) l > 2 / 5"
    using best r by simp
  have "\<exists>l. first_best (fuzzy_score (normalizeCode imm_partial_snippet))
           (not_removed (all_lines imm_file)) = Some l \<and> fuzzy_at l = fuzzy_at imm_added"
  proof (cases "first_best (fuzzy_score (normalizeCode imm_partial_snippet))
           (not_removed (all_lines imm_file))")
    case None
    then show ?thesis
      using best r by (simp add: fallback_at_def)
  next
    case (Some l)
    then have "fuzzy_at l = \<lparr>pos_old_line = None, pos_new_line = Some 1702, confidence = Fuzzy\<rparr>"
      using best r by (auto simp: fallback_at_def split: if_splits)
    then show ?thesis
      using Some by (simp add: fuzzy_at_def imm_added_def)
  qed
  with p acc sh sc r ex show ?thesis
    by simp
qed

text \<open>
  The claim as stated fails for an overlap score between 0.4 and 0.6: the snippet and the
  added line of \<open>overlap_diff\<close> have 20 characters each and agree on the first 10, so the
  score of the specification (\<open>spec_score\<close>) is 1/2, above 0.4, and the resolver returns
  Fallback.
\<close>

theorem overlap_below_gate_unresolved:
  "parseDiffPatch overlap_diff ''t.js'' = Some overlap_file \<and>
   overlap_line \<in> set (all_lines overlap_file) \<and>
   type overlap_line = Added \<and>
   spec_score (normalizeCode overlap_snippet) overlap_line = 1 / 2 \<and>
   (2 / 5 :: rat) < 1 / 2 \<and>
   findCorrectLineNumbers ''t.js'' overlap_snippet None (parseDiffPatch overlap_diff) =
     \<lparr>pos_old_line = None, pos_new_line = Some 0, confidence = Fallback\<rparr>"
proof -
  have "overlap_line \<in> set (all_lines overlap_file)"
    by (simp add: all_lines_def overlap_file_def)
  moreover have "type overlap_line = Added"
    by (simp add: overlap_line_def)
  moreover have "spec_score (normalizeCode overlap_snippet) overlap_line = 1 / 2"
    by code_simp
  moreover have "findCorrectLineNumbers ''t.js'' overlap_snippet None (parseDiffPatch overlap_diff) =
     \<lparr>pos_old_line = None, pos_new_line = Some 0, confidence = Fallback\<rparr>"
    by code_simp
  ultimately show ?thesis
    using parse_overlap_diff by simp
qed

section \<open>Properties of the duplicate suppressor\<close>

lemma similar_in_iff:
  "similar_in lineNumber commentBody tol cs =
     (\<exists>c \<in> set cs. (\<exists>l. c_line c = Some l \<and> l \<noteq> 0 \<and> \<bar>l - lineNumber\<bar> \<le> tol) \<and>
                     3 / 5 < calculateSimilarity commentBody (c_body c))"
  by (induction cs) (auto split: option.splits)

lemma isSimilarCommentExists_iff:
  "isSimilarCommentExists filePath lineNumber commentBody existing tol =
     (\<exists>c \<in> set existing. in_window filePath lineNumber tol c \<and>
                           3 / 5 < calculateSimilarity commentBody (c_body c))"
proof (cases "filter (\<lambda>c. c_file c = Some filePath) existing = []")
  case True
  then have "\<forall>c \<in> set existing. c_file c \<noteq> Some filePath"
    by (simp add: filter_empty_conv)
  then show ?thesis
    using True by (auto simp: isSimilarCommentExists_def in_window_def)
next
  case False
  then show ?thesis
    by (auto simp: isSimilarCommentExists_def similar_in_iff in_window_def Let_def)
qed

lemma length_remdups_card: "length (remdups xs) = card (set xs)"
  by (simp add: length_remdups_card_conv)

lemma calculateSimilarity_jaccard:
  "calculateSimilarity text1 text2 =
     (if word_set text1 = {} \<and> word_set text2 = {} then 1
      else of_nat (card (word_set text1 \<inter> word_set text2)) /
           of_nat (card (word_set text1 \<union> word_set text2)))"
proof -
  let ?A = "set (normalize text1)" and ?B = "set (normalize text2)"
  have inter: "set (filter (\<lambda>w. w \<in> set (remdups (normalize text2))) (remdups (normalize text1))) = ?A \<inter> ?B"
    by auto
  have i: "length (remdups (filter (\<lambda>w. w \<in> set (remdups (normalize text2))) (remdups (normalize text1)))) =
        card (?A \<inter> ?B)"
    unfolding length_remdups_card inter ..
  have u: "length (remdups (remdups (normalize text1) @ remdups (normalize text2))) = card (?A \<union> ?B)"
    unfolding length_remdups_card by simp
  have e1: "(length (remdups (normalize text1)) = 0) = (?A = {})"
    by simp
  have e2: "(length (remdups (normalize text2)) = 0) = (?B = {})"
    by simp
  show ?thesis
    unfolding calculateSimilarity_def Let_def i u e1 e2 word_set_def
    by auto
qed

text \<open>
  Claim C5, as amended. With window 3 and threshold 0.6 the suppressor returns true if and
  only if some existing comment with the same file, with a line (the test \<open>!existingComment.line\<close>
  takes \<open>null\<close> and 0 for no line) and with \<open>|existing.line - line| \<le> 3\<close>, has a similarity
  with the candidate body strictly greater than 0.6. The similarity is 1 when both word sets
  are empty, and otherwise the Jaccard quotient of the two word sets (lower case, characters
  outside \<open>\w\<close> and \<open>\s\<close> replaced by spaces, split at white space, words longer than 3
  characters). Comments on another file or outside the window do not change the result,
  whatever their text.
\<close>

theorem duplicate_iff:
  "isSimilarCommentExists filePath lineNumber commentBody existing 3 =
     (\<exists>c \<in> set existing.
        c_file c = Some filePath \<and>
        (\<exists>l. c_line c = Some l \<and> l \<noteq> 0 \<and> \<bar>l - lineNumber\<bar> \<le> 3) \<and>
        3 / 5 < (if word_set commentBody = {} \<and> word_set (c_body c) = {} then 1
                 else of_nat (card (word_set commentBody \<inter> word_set (c_body c))) /
                      of_nat (card (word_set commentBody \<union> word_set (c_body c))) :: rat)) \<and>
   isSimilarCommentExists filePath lineNumber commentBody existing 3 =
     isSimilarCommentExists filePath lineNumber commentBody
       (filter (in_window filePath lineNumber 3) existing) 3"
proof
  show "isSimilarCommentExists filePath lineNumber commentBody existing 3 =
     (\<exists>c \<in> set existing.
        c_file c = Some filePath \<and>
        (\<exists>l. c_line c = Some l \<and> l \<noteq> 0 \<and> \<bar>l - lineNumber\<bar> \<le> 3) \<and>
        3 / 5 < (if word_set commentBody = {} \<and> word_set (c_body c) = {} then 1
                 else of_nat (card (word_set commentBody \<inter> word_set (c_body c))) /
                      of_nat (card (word_set commentBody \<union> word_set (c_body c))) :: rat))"
    unfolding isSimilarCommentExists_iff in_window_def calculateSimilarity_jaccard by blast
  show "isSimilarCommentExists filePath lineNumber commentBody existing 3 =
     isSimilarCommentExists filePath lineNumber commentBody
       (filter (in_window filePath lineNumber 3) existing) 3"
    unfolding isSimilarCommentExists_iff by auto
qed

theorem duplicate_iff_witness:
  "normalize ''Missing null check here'' = [''missing'', ''null'', ''check'', ''here''] \<and>
   normalize ''missing NULL check!'' = [''missing'', ''null'', ''check''] \<and>
   calculateSimilarity ''Missing null check here'' ''missing NULL check!'' = 3 / 4 \<and>
   isSimilarCommentExists ''F'' 701 ''Missing null check here''
     [comment_at ''F'' 703 ''missing NULL check!''] 3 \<and>
   (\<exists>c \<in> set [comment_at ''F'' 703 ''missing NULL check!''].
      c_file c = Some ''F'' \<and> (\<exists>l. c_line c = Some l \<and> l \<noteq> 0 \<and> \<bar>l - 701\<bar> \<le> 3) \<and>
      3 / 5 < (if word_set ''Missing null check here'' = {} \<and> word_set (c_body c) = {} then 1
               else of_nat (card (word_set ''Missing null check here'' \<inter> word_set (c_body c))) /
                    of_nat (card (word_set ''Missing null check here'' \<union> word_set (c_body c))) :: rat)) \<and>
   \<not> isSimilarCommentExists ''F'' 699 ''Missing null check here''
         [comment_at ''F'' 703 ''missing NULL check!''] 3 \<and>
   \<not> isSimilarCommentExists ''G'' 703 ''Missing null check here''
         [comment_at ''F'' 703 ''missing NULL check!''] 3"
proof -
  have n: "normalize ''Missing null check here'' = [''missing'', ''null'', ''check'', ''here'']"
      "normalize ''missing NULL check!'' = [''missing'', ''null'', ''check'']"
      "calculateSimilarity ''Missing null check here'' ''missing NULL check!'' = 3 / 4"
    by code_simp+
  have d: "isSimilarCommentExists ''F'' 701 ''Missing null check here''
     [comment_at ''F'' 703 ''missing NULL check!''] 3"
    by code_simp
  have c: "c_file (comment_at ''F'' 703 ''missing NULL check!'') = Some ''F''"
      "c_line (comment_at ''F'' 703 ''missing NULL check!'') = Some 703"
    by (simp_all add: comment_at_def)
  have w: "\<not> isSimilarCommentExists ''F'' 699 ''Missing null check here''
         [comment_at ''F'' 703 ''missing NULL check!''] 3"
    using duplicate_iff [of "''F''" 699 "''Missing null check here''"
        "[comment_at ''F'' 703 ''missing NULL check!'']"] c
    by simp
  have f: "\<not> isSimilarCommentExists ''G'' 703 ''Missing null check here''
         [comment_at ''F'' 703 ''missing NULL check!''] 3"
    using duplicate_iff [of "''G''" 703 "''Missing null check here''"
        "[comment_at ''F'' 703 ''missing NULL check!'']"] c
    by simp
  have "\<exists>c \<in> set [comment_at ''F'' 703 ''missing NULL check!''].
      c_file c = Some ''F'' \<and> (\<exists>l. c_line c = Some l \<and> l \<noteq> 0 \<and> \<bar>l - 701\<bar> \<le> 3) \<and>
      3 / 5 < (if word_set ''Missing null check here'' = {} \<and> word_set (c_body c) = {} then 1
               else of_nat (card (word_set ''Missing null check here'' \<inter> word_set (c_body c))) /
                    of_nat (card (word_set ''Missing null check here'' \<union> word_set (c_body c))) :: rat)"
    using d duplicate_iff [of "''F''" 701 "''Missing null check here''"
        "[comment_at ''F'' 703 ''missing NULL check!'']"]
    by blast
  with n d w f show ?thesis
    by (intro conjI)
qed

text \<open>
  The claim as stated fails when no word longer than 3 characters survives in either body:
  both word sets are empty, the quotient of the claim is 0/0 and not greater than 0.6, and
  the suppressor returns true, because the similarity of two empty word sets is set to 1.
\<close>

theorem duplicate_without_long_words:
  "c_file (comment_at ''F'' 12 ''a b c'') = Some ''F'' \<and>
   c_line (comment_at ''F'' 12 ''a b c'') = Some 12 \<and>
   \<bar>12 - 10\<bar> \<le> (3 :: int) \<and>
   card (word_set ''ok'' \<inter> word_set (c_body (comment_at ''F'' 12 ''a b c''))) = 0 \<and>
   card (word_set ''ok'' \<union> word_set (c_body (comment_at ''F'' 12 ''a b c''))) = 0 \<and>
   \<not> (3 / 5 < (of_nat (card (word_set ''ok'' \<inter> word_set (c_body (comment_at ''F'' 12 ''a b c'')))) /
              of_nat (card (word_set ''ok'' \<union> word_set (c_body (comment_at ''F'' 12 ''a b c'')))) :: rat)) \<and>
   isSimilarCommentExists ''F'' 10 ''ok'' [comment_at ''F'' 12 ''a b c''] 3"
proof -
  have n1: "normalize ''ok'' = []"
    by code_simp
  have n2: "normalize ''a b c'' = []"
    by code_simp
  have d: "isSimilarCommentExists ''F'' 10 ''ok'' [comment_at ''F'' 12 ''a b c''] 3"
    by code_simp
  show ?thesis
    using n1 n2 d by (simp add: word_set_def comment_at_def)
qed

lemma stored_line_not_zero: "stored_line position_new_line \<noteq> Some 0"
  by (simp add: stored_line_def split: option.splits)

text \<open>
  Claim C10. When no word longer than 3 characters survives the normalisation of either
  body, the similarity is 1; when this holds for exactly one of the two bodies, the
  similarity is 0. Hence an existing comment on the same file, with a line within the
  3-line window, whose body has only short words makes a new issue whose body has only
  short words a duplicate. The line of a stored comment is never 0 (\<open>stored_line\<close>).
\<close>

theorem empty_word_sets:
  "(normalize text1 = [] \<and> normalize text2 = [] \<longrightarrow> calculateSimilarity text1 text2 = 1) \<and>
   (normalize text1 = [] \<and> normalize text2 \<noteq> [] \<longrightarrow> calculateSimilarity text1 text2 = 0) \<and>
   (normalize text1 \<noteq> [] \<and> normalize text2 = [] \<longrightarrow> calculateSimilarity text1 text2 = 0) \<and>
   (c \<in> set existing \<and> c_file c = Some filePath \<and> c_line c = Some l \<and> l \<noteq> 0 \<and>
    \<bar>l - lineNumber\<bar> \<le> 3 \<and> normalize commentBody = [] \<and> normalize (c_body c) = [] \<longrightarrow>
      isSimilarCommentExists filePath lineNumber commentBody existing 3)"
proof (intro conjI impI)
  assume "normalize text1 = [] \<and> normalize text2 = []"
  then show "calculateSimilarity text1 text2 = 1"
    by (simp add: calculateSimilarity_def)
next
  assume "normalize text1 = [] \<and> normalize text2 \<noteq> []"
  then show "calculateSimilarity text1 text2 = 0"
    by (simp add: calculateSimilarity_def)
next
  assume "normalize text1 \<noteq> [] \<and> normalize text2 = []"
  then show "calculateSimilarity text1 text2 = 0"
    by (simp add: calculateSimilarity_def)
next
  assume a: "c \<in> set existing \<and> c_file c = Some filePath \<and> c_line c = Some l \<and> l \<noteq> 0 \<and>
    \<bar>l - lineNumber\<bar> \<le> 3 \<and> normalize commentBody = [] \<and> normalize (c_body c) = []"
  then have "calculateSimilarity commentBody (c_body c) = 1"
    by (simp add: calculateSimilarity_def)
  then have "in_window filePath lineNumber 3 c \<and> 3 / 5 < calculateSimilarity commentBody (c_body c)"
    using a by (simp add: in_window_def)
  then show "isSimilarCommentExists filePath lineNumber commentBody existing 3"
    unfolding isSimilarCommentExists_iff using a by blast
qed

theorem empty_word_sets_witness:
  "normalize ''fix it now'' = [] \<and> normalize ''see the bug'' = [] \<and>
   calculateSimilarity ''fix it now'' ''see the bug'' = 1 \<and>
   normalize ''null'' \<noteq> [] \<and> calculateSimilarity ''fix it now'' ''null'' = 0 \<and>
   calculateSimilarity ''null'' ''fix it now'' = 0 \<and>
   comment_at ''F'' 12 ''see the bug'' \<in> set [comment_at ''F'' 12 ''see the bug''] \<and>
   c_file (comment_at ''F'' 12 ''see the bug'') = Some ''F'' \<and>
   c_line (comment_at ''F'' 12 ''see the bug'') = Some 12 \<and> (12 :: int) \<noteq> 0 \<and>
   \<bar>12 - 10\<bar> \<le> (3 :: int) \<and>
   isSimilarCommentExists ''F'' 10 ''fix it now'' [comment_at ''F'' 12 ''see the bug''] 3"
proof -
  have n1: "normalize ''fix it now'' = []" by code_simp
  have n2: "normalize ''see the bug'' = []" by code_simp
  have n3: "normalize ''null'' \<noteq> []" by code_simp
  have c: "c_body (comment_at ''F'' 12 ''see the bug'') = ''see the bug''"
      "c_file (comment_at ''F'' 12 ''see the bug'') = Some ''F''"
      "c_line (comment_at ''F'' 12 ''see the bug'') = Some 12"
    by (simp_all add: comment_at_def)
  show ?thesis
    using empty_word_sets [of "''fix it now''" "''see the bug''" "comment_at ''F'' 12 ''see the bug''"
        "[comment_at ''F'' 12 ''see the bug'']" "''F''" 12 10 "''fix it now''"]
      empty_word_sets [of "''fix it now''" "''null''" "comment_at ''F'' 12 ''see the bug''"
        "[comment_at ''F'' 12 ''see the bug'']" "''F''" 12 10 "''fix it now''"]
      empty_word_sets [of "''null''" "''fix it now''" "comment_at ''F'' 12 ''see the bug''"
        "[comment_at ''F'' 12 ''see the bug'']" "''F''" 12 10 "''fix it now''"]
      n1 n2 n3 c
    by simp
qed

section \<open>Properties of the response parsers\<close>

lemma from_first_brace_hd:
  "CHR ''{'' \<in> set s \<Longrightarrow> from_first_brace s \<noteq> [] \<and> hd (from_first_brace s) = CHR ''{''"
proof -
  assume a: "CHR ''{'' \<in> set s"
  then have "dropWhile (\<lambda>c. c \<noteq> CHR ''{'') s \<noteq> []"
    by (auto simp: dropWhile_eq_Nil_conv)
  then show ?thesis
    using a hd_dropWhile [of "\<lambda>c. c \<noteq> CHR ''{''" s] by (simp add: from_first_brace_def)
qed

lemma from_first_brace_set: "set (from_first_brace s) \<subseteq> set s"
  by (auto simp: from_first_brace_def dest: set_dropWhileD)

lemma to_last_brace_set: "set (to_last_brace s) \<subseteq> set s"
  by (auto simp: to_last_brace_def dest: set_dropWhileD)

lemma to_last_brace_last:
  assumes "CHR ''}'' \<in> set s"
  shows "to_last_brace s \<noteq> [] \<and> last (to_last_brace s) = CHR ''}'' \<and> hd (to_last_brace s) = hd s"
proof -
  let ?d = "dropWhile (\<lambda>c. c \<noteq> CHR ''}'') (rev s)"
  have ne: "?d \<noteq> []"
    using assms by (auto simp: dropWhile_eq_Nil_conv)
  then have hd: "hd ?d = CHR ''}''"
    using hd_dropWhile [of "\<lambda>c. c \<noteq> CHR ''}''" "rev s"] by simp
  have "rev s = takeWhile (\<lambda>c. c \<noteq> CHR ''}'') (rev s) @ ?d"
    by simp
  then have "s = rev ?d @ rev (takeWhile (\<lambda>c. c \<noteq> CHR ''}'') (rev s))"
    by (metis rev_append rev_rev_ident)
  then have "hd s = hd (rev ?d)"
    using ne by (metis hd_append2 rev_is_Nil_conv)
  moreover have "last (rev ?d) = hd ?d"
    using ne by (simp add: last_rev)
  ultimately show ?thesis
    using assms ne hd by (simp add: to_last_brace_def)
qed

lemma clean_response_braces:
  "(CHR ''{'' \<in> set (clean_response output) \<longrightarrow> hd (clean_response output) = CHR ''{'') \<and>
   (CHR ''}'' \<in> set (clean_response output) \<longrightarrow> last (clean_response output) = CHR ''}'')"
proof -
  define x where "x = remove_fence ''```'' (remove_fence ''```json'' (trim output))"
  define y where "y = from_first_brace x"
  have c: "clean_response output = to_last_brace y"
    by (simp add: clean_response_def x_def y_def)
  have 1: "hd (to_last_brace y) = CHR ''{''" if "CHR ''{'' \<in> set (to_last_brace y)"
  proof -
    have "CHR ''{'' \<in> set x"
      using that to_last_brace_set [of y] from_first_brace_set [of x] by (auto simp: y_def)
    then have y: "hd y = CHR ''{''"
      using from_first_brace_hd [of x] by (simp add: y_def)
    show ?thesis
    proof (cases "CHR ''}'' \<in> set y")
      case True
      then show ?thesis using to_last_brace_last [of y] y by simp
    next
      case False
      then show ?thesis using y by (simp add: to_last_brace_def)
    qed
  qed
  have 2: "last (to_last_brace y) = CHR ''}''" if "CHR ''}'' \<in> set (to_last_brace y)"
  proof -
    have "CHR ''}'' \<in> set y"
      using that to_last_brace_set [of y] by auto
    then show ?thesis using to_last_brace_last [of y] by simp
  qed
  show ?thesis
    unfolding c using 1 2 by blast
qed

lemma endsWith_brace: "endsWith s ''}'' = (s \<noteq> [] \<and> last s = CHR ''}'')"
proof (cases "rev s")
  case Nil
  then show ?thesis by (simp add: endsWith_def startsWith_def)
next
  case (Cons c cs)
  then have "s = rev cs @ [c]"
    by (metis rev.simps(2) rev_rev_ident)
  then show ?thesis
    using Cons by (simp add: endsWith_def startsWith_def)
qed

lemma cut_after_last_brace_ends:
  assumes "CHR ''}'' \<in> set (drop 1 x)"
  shows "endsWith (cut_after_last_brace x) ''}''"
proof -
  have "CHR ''}'' \<in> set x"
    using assms by (meson in_set_dropD)
  then have "to_last_brace x \<noteq> [] \<and> last (to_last_brace x) = CHR ''}''"
    using to_last_brace_last [of x] by simp
  moreover have "cut_after_last_brace x = to_last_brace x"
    using assms \<open>CHR ''}'' \<in> set x\<close> by (simp add: cut_after_last_brace_def to_last_brace_def)
  ultimately show ?thesis
    by (simp add: endsWith_brace)
qed

lemma last_index_where_Some:
  "last_index_where p s = Some i \<Longrightarrow> i < length s \<and> p (drop i s)"
proof (induction s arbitrary: i)
  case Nil
  then show ?case by simp
next
  case (Cons c cs)
  show ?case
  proof (cases "last_index_where p cs")
    case None
    then show ?thesis
      using Cons.prems by (simp split: if_splits)
  next
    case (Some j)
    then have "i = Suc j"
      using Cons.prems by simp
    then show ?thesis
      using Cons.IH [OF Some] by simp
  qed
qed

lemma last_match_end_Some:
  "last_match_end m s = Some e \<Longrightarrow> \<exists>i n. i \<le> length s \<and> m (drop i s) = Some n \<and> e = i + n \<and> drop i s \<noteq> []"
proof (induction s arbitrary: e)
  case Nil
  then show ?case by simp
next
  case (Cons c cs)
  show ?case
  proof (cases "last_match_end m cs")
    case None
    then have "m (c # cs) = Some e"
      using Cons.prems by simp
    then have "0 \<le> length (c # cs) \<and> m (drop 0 (c # cs)) = Some e \<and> e = 0 + e \<and> drop 0 (c # cs) \<noteq> []"
      by simp
    then show ?thesis
      by blast
  next
    case (Some e')
    then have e: "e = Suc e'"
      using Cons.prems by simp
    from Cons.IH [OF Some] obtain i n where
      "i \<le> length cs" "m (drop i cs) = Some n" "e' = i + n" "drop i cs \<noteq> []"
      by blast
    then have "Suc i \<le> length (c # cs) \<and> m (drop (Suc i) (c # cs)) = Some n \<and> e = Suc i + n \<and>
        drop (Suc i) (c # cs) \<noteq> []"
      using e by simp
    then show ?thesis
      by blast
  qed
qed

lemma issue_boundary_at_braces:
  assumes "issue_boundary_at t"
  shows "t \<noteq> [] \<and> hd t = CHR ''}'' \<and> CHR ''{'' \<in> set t"
proof -
  have s: "startsWith t ''},''" and b: "startsWith (dropWhile is_space (drop 2 t)) ''{''"
    using assms by (simp_all add: issue_boundary_at_def)
  from s have t: "t \<noteq> [] \<and> hd t = CHR ''}''"
    by (cases t) (auto simp: startsWith_def)
  from b have "dropWhile is_space (drop 2 t) \<noteq> [] \<and> hd (dropWhile is_space (drop 2 t)) = CHR ''{''"
    by (cases "dropWhile is_space (drop 2 t)") (auto simp: startsWith_def)
  then have "CHR ''{'' \<in> set (dropWhile is_space (drop 2 t))"
    by (metis list.set_sel(1))
  then have "CHR ''{'' \<in> set (drop 2 t)"
    by (rule set_dropWhileD)
  then have "CHR ''{'' \<in> set t"
    by (rule in_set_dropD)
  with t show ?thesis
    by simp
qed

lemma expect_Some: "expect p s = Some r \<Longrightarrow> s = p @ r"
proof -
  assume a: "expect p s = Some r"
  then have "take (length p) s = p" and "r = drop (length p) s"
    by (auto simp: expect_def startsWith_def split: if_splits)
  then show ?thesis
    by (metis append_take_drop_id)
qed

lemma first_some_Some: "first_some f xs = Some y \<Longrightarrow> \<exists>x \<in> set xs. f x = Some y"
  by (induction xs) (auto split: option.splits)

lemma priority_at_brace:
  assumes "priority_at t = Some n"
  shows "CHR ''}'' \<in> set (drop 1 t)"
proof -
  from assms obtain t1 where t1: "expect ([CHR 0x22] @ ''priority'' @ [CHR 0x22] @ '':'') t = Some t1"
    by (auto simp: priority_at_def split: option.splits)
  from assms t1 obtain t2 where t2: "expect [CHR 0x22] (dropWhile is_space t1) = Some t2"
    by (auto simp: priority_at_def split: option.splits)
  from assms t1 t2 obtain t3 where
    t3: "first_some (\<lambda>w. expect (w @ [CHR 0x22]) t2) [''High'', ''Medium'', ''Low''] = Some t3"
    by (auto simp: priority_at_def split: option.splits)
  from assms t1 t2 t3 obtain t4 where t4: "expect ''}'' (dropWhile is_space t3) = Some t4"
    by (auto simp: priority_at_def split: option.splits)
  have "CHR ''}'' \<in> set (dropWhile is_space t3)"
    using expect_Some [OF t4] by simp
  then have 3: "CHR ''}'' \<in> set t3"
    by (rule set_dropWhileD)
  from first_some_Some [OF t3] obtain w where "expect (w @ [CHR 0x22]) t2 = Some t3"
    by blast
  then have 2: "CHR ''}'' \<in> set t2"
    using expect_Some [of "w @ [CHR 0x22]" t2 t3] 3 by auto
  have "CHR ''}'' \<in> set (dropWhile is_space t1)"
    using expect_Some [OF t2] 2 by auto
  then have 1: "CHR ''}'' \<in> set t1"
    by (rule set_dropWhileD)
  have "t = ([CHR 0x22] @ ''priority'' @ [CHR 0x22] @ '':'') @ t1"
    using expect_Some [OF t1] .
  then have "drop 1 t = (''priority'' @ [CHR 0x22] @ '':'') @ t1"
    by simp
  then show ?thesis
    using 1 by simp
qed

lemma in_set_drop_drop: "x \<in> set (drop 1 (drop i s)) \<Longrightarrow> x \<in> set (drop 1 s)"
proof -
  assume "x \<in> set (drop 1 (drop i s))"
  then have "x \<in> set (drop i (drop 1 s))"
    by (simp add: add.commute)
  then show ?thesis
    by (rule in_set_dropD)
qed

lemma fix_truncated_after_cut:
  "fix_truncated (cut_after_last_brace (from_first_brace s)) =
     cut_after_last_brace (from_first_brace s)"
proof (cases "endsWith (cut_after_last_brace (from_first_brace s)) ''}''")
  case True
  then show ?thesis
    by (simp add: fix_truncated_def)
next
  case False
  define x where "x = from_first_brace s"
  have nb: "CHR ''}'' \<notin> set (drop 1 x)"
    using False cut_after_last_brace_ends [of x] by (auto simp: x_def)
  then have c: "cut_after_last_brace x = x"
    by (simp add: cut_after_last_brace_def)
  have ne: "\<not> endsWith x ''}''"
    using False c by (simp add: x_def)
  have s1: "last_index_where issue_boundary_at x = None"
  proof (rule ccontr)
    assume "last_index_where issue_boundary_at x \<noteq> None"
    then obtain i where i: "last_index_where issue_boundary_at x = Some i"
      by auto
    from last_index_where_Some [OF i] have il: "i < length x" and b: "issue_boundary_at (drop i x)"
      by simp_all
    from issue_boundary_at_braces [OF b] have h: "hd (drop i x) = CHR ''}''"
      and o: "CHR ''{'' \<in> set (drop i x)"
      by simp_all
    have xi: "x ! i = CHR ''}''"
      using h il by (simp add: hd_drop_conv_nth)
    show False
    proof (cases i)
      case 0
      have "CHR ''{'' \<in> set x"
        using o by (rule in_set_dropD)
      then have "CHR ''{'' \<in> set s"
        using from_first_brace_set [of s] by (auto simp: x_def)
      then have "hd x = CHR ''{''"
        using from_first_brace_hd [of s] by (simp add: x_def)
      moreover have "hd x = x ! 0"
        using il by (cases x) simp_all
      ultimately show False
        using xi 0 by simp
    next
      case (Suc j)
      have "drop 1 x ! j = x ! i"
        using il Suc by simp
      moreover have "j < length (drop 1 x)"
        using il Suc by simp
      ultimately have "CHR ''}'' \<in> set (drop 1 x)"
        using xi by (metis nth_mem)
      then show False
        using nb by simp
    qed
  qed
  have s2: "last_match_end priority_at x = None"
  proof (rule ccontr)
    assume "last_match_end priority_at x \<noteq> None"
    then obtain e where "last_match_end priority_at x = Some e"
      by auto
    from last_match_end_Some [OF this] obtain i n where "priority_at (drop i x) = Some n"
      by blast
    then have "CHR ''}'' \<in> set (drop 1 (drop i x))"
      by (rule priority_at_brace)
    then have "CHR ''}'' \<in> set (drop 1 x)"
      by (rule in_set_drop_drop)
    then show False
      using nb by simp
  qed
  have "fix_truncated x = x"
    using ne s1 s2 nb by (simp add: fix_truncated_def)
  then show ?thesis
    using c by (simp add: x_def)
qed

lemma parse_agent_output_no_repair:
  "parse_agent_output unescape stdout =
     (case unwrap unescape (trim stdout) of
        Inl e \<Rightarrow> Inl e
      | Inr cleanOutput \<Rightarrow>
          parse_or_fix (cut_after_last_brace (from_first_brace (strip_code_blocks cleanOutput))))"
  by (simp add: parse_agent_output_def fix_truncated_after_cut split: sum.splits)


lemma truncated_review_throws: "parse_agent_output unescape truncated_review = Inl SyntaxError"
  by code_simp

lemma truncated_review_not_blank: "truncated_review \<noteq> [] \<and> length (trim truncated_review) \<noteq> 0"
  by code_simp

lemma truncated_review_exits:
  assumes "cursorApiKey env" and "agent env = Inr truncated_review"
  shows "runCursorAgentReview env = Exit 1"
  using assms truncated_review_not_blank
  by (simp add: runCursorAgentReview_def truncated_review_throws split: sum.splits)

text \<open>
  Claim C8. The claim says that an answer which does not parse after the cleaning is cut
  back to its last complete issue and closed, and that no input makes the repair throw. The
  single-phase review holds that repair (\<open>fix_truncated\<close>: the \<open>},\<close> boundary, then the
  \<open>priority\<close> field, then the last brace) and runs it on a text that does not end with a
  brace; but it runs it after the cut at the last brace, which makes every text with a brace
  past its first character end with one. So the repair never changes the text, for any
  input. On the answer \<open>truncated_review\<close>, cut in the middle of its second issue, the repair
  applied before the cut gives a document that parses, with the first issue; the code
  fails to parse the text twice, throws the error to the markdown fallback, and the
  process exits with status 1. The parser of the three-phase review throws the error of
  \<open>JSON.parse\<close> again. The same holds for \<open>truncated_response\<close>, cut inside a code fence.
  On a text that does not end with a brace the repair does what its comments say
  (\<open>priority_cut\<close>, \<open>brace_cut\<close>). The other steps work: the quotes inside a string are escaped
  for the second attempt (\<open>quoted_review\<close>), the result field of the wrapper format is taken
  (\<open>wrapped_review\<close>; a result that is not a string throws), and both parsers remove the code
  fences and the text around the braces of a complete answer.
\<close>

theorem truncated_answer_not_repaired:
  "fix_truncated (cut_after_last_brace (from_first_brace s)) =
     cut_after_last_brace (from_first_brace s) \<and>
   parse_agent_output unescape stdout =
     (case unwrap unescape (trim stdout) of
        Inl e \<Rightarrow> Inl e
      | Inr cleanOutput \<Rightarrow>
          parse_or_fix (cut_after_last_brace (from_first_brace (strip_code_blocks cleanOutput)))) \<and>
   fix_truncated (from_first_brace (strip_code_blocks (trim truncated_review))) =
     take 112 truncated_review @ closing_structure \<and>
   JSON_parse (take 112 truncated_review @ closing_structure) =
     Some (JObject
       [(''assessment'', JObject [(''summary'', JString ''Good'')]),
        (''metrics'', JArray []),
        (''issues'', JArray [JObject [(''file'', JString ''app.js''), (''priority'', JString ''High'')]]),
        (''issueBreakdown'', JObject []),
        (''nextSteps'', JArray []),
        (''verdict'', JString [])]) \<and>
   cut_after_last_brace (from_first_brace (strip_code_blocks (trim truncated_review))) =
     take 112 truncated_review \<and>
   parse_agent_output unescape truncated_review = Inl SyntaxError \<and>
   (cursorApiKey env \<and> agent env = Inr truncated_review \<longrightarrow> runCursorAgentReview env = Exit 1) \<and>
   parseAIResponse truncated_review = Inl SyntaxError \<and>
   parse_agent_output unescape truncated_response = Inl SyntaxError \<and>
   parseAIResponse truncated_response = Inl SyntaxError \<and>
   fix_truncated priority_cut = take 32 priority_cut @ closing_structure \<and>
   fix_truncated brace_cut = take 8 brace_cut \<and>
   parse_agent_output unescape quoted_review =
     Inr (JObject [(''a'', JString (''b '' @ [CHR 0x5C, CHR 0x22] @ ''c{''))]) \<and>
   parse_agent_output (\<lambda>lexeme. lexeme) wrapped_review = Inr (JObject []) \<and>
   parse_agent_output (\<lambda>lexeme. lexeme) wrapped_list = Inl TypeError \<and>
   strip_code_blocks (trim fenced_response) = ''{'' @ [CHR 0x22] @ ''issues'' @ [CHR 0x22] @ '': []}'' \<and>
   parse_agent_output unescape fenced_response = Inr (JObject [(''issues'', JArray [])]) \<and>
   clean_response fenced_response = ''{'' @ [CHR 0x22] @ ''issues'' @ [CHR 0x22] @ '': []}'' \<and>
   parseAIResponse fenced_response = Inr (JObject [(''issues'', JArray [])])"
proof -
  have 1: "fix_truncated (cut_after_last_brace (from_first_brace s)) =
     cut_after_last_brace (from_first_brace s)"
    by (rule fix_truncated_after_cut)
  have 2: "parse_agent_output unescape stdout =
     (case unwrap unescape (trim stdout) of
        Inl e \<Rightarrow> Inl e
      | Inr cleanOutput \<Rightarrow>
          parse_or_fix (cut_after_last_brace (from_first_brace (strip_code_blocks cleanOutput))))"
    by (rule parse_agent_output_no_repair)
  have 3: "fix_truncated (from_first_brace (strip_code_blocks (trim truncated_review))) =
     take 112 truncated_review @ closing_structure"
    by code_simp
  have 4: "JSON_parse (take 112 truncated_review @ closing_structure) =
     Some (JObject
       [(''assessment'', JObject [(''summary'', JString ''Good'')]),
        (''metrics'', JArray []),
        (''issues'', JArray [JObject [(''file'', JString ''app.js''), (''priority'', JString ''High'')]]),
        (''issueBreakdown'', JObject []),
        (''nextSteps'', JArray []),
        (''verdict'', JString [])])"
    by code_simp
  have 5: "cut_after_last_brace (from_first_brace (strip_code_blocks (trim truncated_review))) =
     take 112 truncated_review"
    by code_simp
  have 6: "parse_agent_output unescape truncated_review = Inl SyntaxError"
    by (rule truncated_review_throws)
  have 7: "cursorApiKey env \<and> agent env = Inr truncated_review \<longrightarrow> runCursorAgentReview env = Exit 1"
    using truncated_review_exits by blast
  have 8: "parseAIResponse truncated_review = Inl SyntaxError"
    by code_simp
  have 13: "parse_agent_output unescape truncated_response = Inl SyntaxError"
    by code_simp
  have 14: "parseAIResponse truncated_response = Inl SyntaxError"
    by code_simp
  have 15: "fix_truncated priority_cut = take 32 priority_cut @ closing_structure"
    by code_simp
  have 16: "fix_truncated brace_cut = take 8 brace_cut"
    by code_simp
  have 17: "parse_agent_output unescape quoted_review =
     Inr (JObject [(''a'', JString (''b '' @ [CHR 0x5C, CHR 0x22] @ ''c{''))])"
    by code_simp
  have 18: "parse_agent_output (\<lambda>lexeme. lexeme) wrapped_review = Inr (JObject [])"
    by code_simp
  have 19: "parse_agent_output (\<lambda>lexeme. lexeme) wrapped_list = Inl TypeError"
    by code_simp
  have 9: "strip_code_blocks (trim fenced_response) = ''{'' @ [CHR 0x22] @ ''issues'' @ [CHR 0x22] @ '': []}''"
    by code_simp
  have 10: "parse_agent_output unescape fenced_response = Inr (JObject [(''issues'', JArray [])])"
    by code_simp
  have 11: "clean_response fenced_response = ''{'' @ [CHR 0x22] @ ''issues'' @ [CHR 0x22] @ '': []}''"
    by code_simp
  have 12: "parseAIResponse fenced_response = Inr (JObject [(''issues'', JArray [])])"
    by code_simp
  from 1 2 3 4 5 6 7 8 13 14 15 16 17 18 19 9 10 11 12 show ?thesis
    by (intro conjI)
qed

theorem truncated_answer_not_repaired_witness:
  "cursorApiKey agent_truncated \<and>
   before_agent agent_truncated = Inr (Some [comment_at ''F'' 12 ''a b c'']) \<and>
   agent agent_truncated = Inr truncated_review \<and>
   parse_agent_output (json_string_value agent_truncated) truncated_review = Inl SyntaxError \<and>
   runCursorAgentReview agent_truncated = Exit 1"
proof -
  have k: "cursorApiKey agent_truncated"
    by (simp add: agent_truncated_def agent_recovers_def)
  have b: "before_agent agent_truncated = Inr (Some [comment_at ''F'' 12 ''a b c''])"
    by (simp add: agent_truncated_def agent_recovers_def)
  have a: "agent agent_truncated = Inr truncated_review"
    by (simp add: agent_truncated_def)
  show ?thesis
    using truncated_answer_not_repaired [of "[]" "json_string_value agent_truncated" "[]" agent_truncated]
      k b a
    by simp
qed

section \<open>Properties of the orchestration\<close>










end
